theory Spec2Isabelle
  imports Complex_Main "HOL-Library.Log_Nat"
begin

text \<open>
  A shallow embedding of \<^verbatim>\<open>src/metrics.py\<close>: the record parser (\<^verbatim>\<open>LOG_PATTERN\<close>,
  \<^verbatim>\<open>parse_line\<close>) and the metrics aggregator (\<^verbatim>\<open>CacheMetrics\<close>, \<^verbatim>\<open>MetricsAnalyzer\<close>).

  Modelling conventions.
  \<^item> A Python \<^verbatim>\<open>str\<close> is a \<open>string\<close>; each \<open>char\<close> stands for one code point in the
    range U+0000..U+00FF, classified as Unicode does. Code points above U+00FF are not
    represented.
  \<^item> Python integers are \<open>int\<close>. \<^verbatim>\<open>int(s)\<close> raises \<^verbatim>\<open>ValueError\<close> on a string of more than
    \<open>int_max_str_digits\<close> digits, the interpreter's limit on such conversions (4300 unless
    reconfigured).
  \<^item> A Python float that the aggregator can hold is a \<open>pyfloat\<close>: a non-negative IEEE 754
    double, given by its exact value, or positive infinity. \<^verbatim>\<open>float(s)\<close>, the sum and the
    halving are rounded to the nearest double, ties to even, and overflow to infinity.
    Negative floats and NaN cannot arise from a latency token and are not represented.
    The two ratios of counters are kept as exact quotients.
  \<^item> A method that returns normally yields \<open>Inr\<close> of what it leaves behind; a method that
    raises yields \<open>Inl (e, s)\<close>, the exception and the state as the exception leaves it.
\<close>

section \<open>Characters and strings\<close>

text \<open>
  \<open>isspace\<close> is \<^verbatim>\<open>str.isspace\<close> on one character, which is also what \<^verbatim>\<open>str.strip\<close> removes and
  what \<^verbatim>\<open>\s\<close> matches; \<open>isdecimal\<close> is what \<^verbatim>\<open>\d\<close> matches; \<open>isalnum\<close> together with the
  underscore is what \<^verbatim>\<open>\w\<close> matches.
\<close>

definition ord :: "char \<Rightarrow> nat" where
  "ord c = of_char c"

definition isspace :: "char \<Rightarrow> bool" where
  "isspace c = ((9 \<le> ord c \<and> ord c \<le> 13) \<or> (28 \<le> ord c \<and> ord c \<le> 32) \<or> ord c = 133 \<or> ord c = 160)"

definition isdecimal :: "char \<Rightarrow> bool" where
  "isdecimal c = (48 \<le> ord c \<and> ord c \<le> 57)"

definition isalnum :: "char \<Rightarrow> bool" where
  "isalnum c =
     (isdecimal c \<or> (65 \<le> ord c \<and> ord c \<le> 90) \<or> (97 \<le> ord c \<and> ord c \<le> 122)
      \<or> ord c = 170 \<or> ord c = 178 \<or> ord c = 179 \<or> ord c = 181 \<or> ord c = 185 \<or> ord c = 186
      \<or> (188 \<le> ord c \<and> ord c \<le> 190) \<or> (192 \<le> ord c \<and> ord c \<le> 214)
      \<or> (216 \<le> ord c \<and> ord c \<le> 246) \<or> 248 \<le> ord c)"

definition strip :: "string \<Rightarrow> string" where
  "strip s = rev (dropWhile isspace (rev (dropWhile isspace s)))"

section \<open>The regular expression\<close>

text \<open>
  \<^verbatim>\<open>LOG_PATTERN\<close> is a sequence of literal texts and of named groups, each group one
  character class under a greedy repetition (\<^verbatim>\<open>+\<close> is \<open>Rep name 1\<close>, \<^verbatim>\<open>*\<close> is \<open>Rep name 0\<close>).
  \<open>match_nodes\<close> is the backtracking search of \<^verbatim>\<open>re.match\<close>: anchored at the start of the
  string, not at its end; a repetition first takes the longest run of the class and gives
  characters back one at a time (\<open>match_back\<close>) while the rest of the pattern fails. The
  result is the \<^verbatim>\<open>groupdict()\<close> of the match, as an association list in group order.
\<close>

datatype atom = Digit | Word | Space | Chr char

fun atom_match :: "atom \<Rightarrow> char \<Rightarrow> bool" where
  "atom_match Digit c = isdecimal c"
| "atom_match Word c = (isalnum c \<or> c = CHR ''_'')"
| "atom_match Space c = isspace c"
| "atom_match (Chr d) c = (c = d)"

datatype cclass = In "atom list" | NotIn "atom list"

fun class_match :: "cclass \<Rightarrow> char \<Rightarrow> bool" where
  "class_match (In as) c = list_ex (\<lambda>a. atom_match a c) as"
| "class_match (NotIn as) c = (\<not> list_ex (\<lambda>a. atom_match a c) as)"

datatype node = Lit string | Rep string nat cclass

type_synonym groups = "(string \<times> string) list"

fun match_lit :: "string \<Rightarrow> string \<Rightarrow> string option" where
  "match_lit [] s = Some s"
| "match_lit (c # cs) [] = None"
| "match_lit (c # cs) (x # xs) = (if x = c then match_lit cs xs else None)"

fun match_nodes :: "node list \<Rightarrow> string \<Rightarrow> groups option"
  and match_back :: "string \<Rightarrow> nat \<Rightarrow> node list \<Rightarrow> string \<Rightarrow> nat \<Rightarrow> groups option" where
  "match_nodes [] s = Some []"
| "match_nodes (Lit l # ps) s =
     (case match_lit l s of None \<Rightarrow> None | Some rest \<Rightarrow> match_nodes ps rest)"
| "match_nodes (Rep name lo cls # ps) s =
     (let k = length (takeWhile (class_match cls) s)
      in if k < lo then None else match_back name lo ps s k)"
| "match_back name lo ps s k =
     (case match_nodes ps (drop k s) of
        Some g \<Rightarrow> Some ((name, take k s) # g)
      | None \<Rightarrow> if k \<le> lo then None else match_back name lo ps s (k - 1))"

text \<open>
  \<^verbatim>\<open>^(?P<ip>[\d.]+) - \[(?P<time>[^\]]+)\] "(?P<method>\w+) (?P<path>[^\s]+) (?P<protocol>[^"]+)" \<close>
  \<^verbatim>\<open>(?P<status>\d+) (?P<bytes>\d+) (?P<latency>[\d.]+) "(?P<cache_status>[^"]*)"\<close>
\<close>

definition LOG_PATTERN :: "node list" where
  "LOG_PATTERN =
     [Rep ''ip'' 1 (In [Digit, Chr CHR ''.'']), Lit '' - ['',
      Rep ''time'' 1 (NotIn [Chr CHR '']'']), Lit ''] \"'',
      Rep ''method'' 1 (In [Word]), Lit '' '',
      Rep ''path'' 1 (NotIn [Space]), Lit '' '',
      Rep ''protocol'' 1 (NotIn [Chr CHR ''\"'']), Lit ''\" '',
      Rep ''status'' 1 (In [Digit]), Lit '' '',
      Rep ''bytes'' 1 (In [Digit]), Lit '' '',
      Rep ''latency'' 1 (In [Digit, Chr CHR ''.'']), Lit '' \"'',
      Rep ''cache_status'' 0 (NotIn [Chr CHR ''\"'']), Lit ''\"'']"

definition parse_line :: "string \<Rightarrow> groups option" where
  "parse_line line = match_nodes LOG_PATTERN (strip line)"


section \<open>Errors and conversions\<close>

text \<open>
  \<open>dict_getitem\<close> is \<^verbatim>\<open>d[k]\<close>, \<open>list_getitem\<close> is \<^verbatim>\<open>xs[i]\<close> with Python's negative indices,
  \<open>truediv\<close> is \<^verbatim>\<open>a / b\<close> on integers. \<open>py_int\<close> and \<open>py_float\<close> are \<^verbatim>\<open>int(s)\<close> and
  \<^verbatim>\<open>float(s)\<close> on the strings the pattern can capture, that is strings of digits for
  \<open>py_int\<close> and of digits and dots for \<open>py_float\<close>: a float literal of that alphabet has
  at least one digit and at most one dot. Signs, exponents, underscores and surrounding
  blanks, which Python accepts too, cannot occur in a capture and are answered with
  \<open>ValueError\<close> here.
\<close>

datatype error = ValueError | KeyError | IndexError | ZeroDivisionError | StatisticsError

definition dict_getitem :: "groups \<Rightarrow> string \<Rightarrow> error + string" where
  "dict_getitem d k = (case map_of d k of None \<Rightarrow> Inl KeyError | Some v \<Rightarrow> Inr v)"

definition list_getitem :: "'a list \<Rightarrow> int \<Rightarrow> error + 'a" where
  "list_getitem xs i =
     (if 0 \<le> i \<and> i < int (length xs) then Inr (xs ! nat i)
      else if i < 0 \<and> - int (length xs) \<le> i then Inr (xs ! nat (int (length xs) + i))
      else Inl IndexError)"

definition truediv :: "int \<Rightarrow> int \<Rightarrow> error + real" where
  "truediv a b = (if b = 0 then Inl ZeroDivisionError else Inr (real_of_int a / real_of_int b))"

definition digit_val :: "char \<Rightarrow> int" where
  "digit_val c = int (ord c) - 48"

definition digits_val :: "string \<Rightarrow> int" where
  "digits_val s = foldl (\<lambda>a c. 10 * a + digit_val c) 0 s"

text \<open>
  \<^verbatim>\<open>sys.get_int_max_str_digits()\<close>: a decimal string with more digits than this is refused
  by \<^verbatim>\<open>int\<close> with \<^verbatim>\<open>ValueError\<close>. Leading zeros count.
\<close>

definition int_max_str_digits :: nat where
  "int_max_str_digits = 4300"

definition py_int :: "string \<Rightarrow> error + int" where
  "py_int s =
     (if s \<noteq> [] \<and> list_all isdecimal s
      then (if int_max_str_digits < length s then Inl ValueError else Inr (digits_val s))
      else Inl ValueError)"

subsection \<open>Floats\<close>

text \<open>
  A \<open>pyfloat\<close> is \<open>Fin x\<close>, a finite float of exact value \<open>x\<close>, or \<open>Inf\<close>. The order is the
  one \<^verbatim>\<open>sorted\<close> uses.

  Rounding works on \<open>s = x * 2 ^ 1074\<close>, the value counted in units of the least positive
  double. \<open>double_exp s\<close> is the exponent of the spacing of doubles around \<open>s\<close>: \<open>0\<close>
  below \<open>2 ^ 53\<close> (the subnormal numbers and the first normal binade), and such that
  \<open>s / 2 ^ double_exp s\<close> has 53 bits above. \<open>rne\<close> rounds to the nearest integer, ties to
  even. \<open>round_double x\<close> is the double nearest to \<open>x \<ge> 0\<close>, or \<open>Inf\<close> when that rounding
  reaches \<open>2 ^ 1024\<close>. \<open>fadd\<close> is the float \<^verbatim>\<open>+\<close> and \<open>fdiv2\<close> the float \<^verbatim>\<open>/ 2\<close>.
\<close>

datatype pyfloat = Fin real | Inf

instantiation pyfloat :: linorder
begin

fun less_eq_pyfloat :: "pyfloat \<Rightarrow> pyfloat \<Rightarrow> bool" where
  "less_eq_pyfloat (Fin a) (Fin b) = (a \<le> b)"
| "less_eq_pyfloat (Fin a) Inf = True"
| "less_eq_pyfloat Inf (Fin b) = False"
| "less_eq_pyfloat Inf Inf = True"

definition less_pyfloat :: "pyfloat \<Rightarrow> pyfloat \<Rightarrow> bool" where
  "less_pyfloat x y = (x \<le> y \<and> \<not> y \<le> x)"

instance
proof
  fix x y z :: pyfloat
  show "(x < y) = (x \<le> y \<and> \<not> y \<le> x)" by (simp add: less_pyfloat_def)
  show "x \<le> x" by (cases x) simp_all
  show "x \<le> y \<Longrightarrow> y \<le> z \<Longrightarrow> x \<le> z" by (cases x; cases y; cases z) simp_all
  show "x \<le> y \<Longrightarrow> y \<le> x \<Longrightarrow> x = y" by (cases x; cases y) simp_all
  show "x \<le> y \<or> y \<le> x" by (cases x; cases y) auto
qed

end

definition rne :: "real \<Rightarrow> int" where
  "rne q =
     (if q - of_int \<lfloor>q\<rfloor> < 1 / 2 then \<lfloor>q\<rfloor>
      else if 1 / 2 < q - of_int \<lfloor>q\<rfloor> then \<lfloor>q\<rfloor> + 1
      else if even \<lfloor>q\<rfloor> then \<lfloor>q\<rfloor> else \<lfloor>q\<rfloor> + 1)"

definition double_exp :: "real \<Rightarrow> nat" where
  "double_exp s = floorlog 2 (nat \<lfloor>s\<rfloor>) - 53"

definition round_scaled :: "real \<Rightarrow> real" where
  "round_scaled s = of_int (rne (s / 2 ^ double_exp s)) * 2 ^ double_exp s"

definition round_double :: "real \<Rightarrow> pyfloat" where
  "round_double x =
     (let r = round_scaled (x * 2 ^ 1074) / 2 ^ 1074
      in if 2 ^ 1024 \<le> r then Inf else Fin r)"

fun fadd :: "pyfloat \<Rightarrow> pyfloat \<Rightarrow> pyfloat" where
  "fadd (Fin a) (Fin b) = round_double (a + b)"
| "fadd (Fin a) Inf = Inf"
| "fadd Inf y = Inf"

fun fdiv2 :: "pyfloat \<Rightarrow> pyfloat" where
  "fdiv2 (Fin a) = round_double (a / 2)"
| "fdiv2 Inf = Inf"

definition py_float :: "string \<Rightarrow> error + pyfloat" where
  "py_float s =
     (let ip = takeWhile isdecimal s
      in case dropWhile isdecimal s of
           [] \<Rightarrow> if ip = [] then Inl ValueError
                 else Inr (round_double (real_of_int (digits_val ip)))
         | c # fp \<Rightarrow>
             if c = CHR ''.'' \<and> list_all isdecimal fp \<and> (ip \<noteq> [] \<or> fp \<noteq> [])
             then Inr (round_double (real_of_int (digits_val (ip @ fp)) / 10 ^ length fp))
             else Inl ValueError)"

section \<open>The aggregate\<close>

text \<open>
  The dataclass \<^verbatim>\<open>CacheMetrics\<close>; \<open>new_CacheMetrics\<close> is \<^verbatim>\<open>CacheMetrics()\<close>, with the list that
  \<^verbatim>\<open>__post_init__\<close> creates. \<open>median\<close> is \<^verbatim>\<open>statistics.median\<close>, whose even case is
  \<^verbatim>\<open>(data[i - 1] + data[i]) / 2\<close> in float arithmetic; \<open>sort\<close> is \<^verbatim>\<open>sorted\<close>;
  \<^verbatim>\<open>int(len(sorted_lat) * 0.95)\<close> is the floor of the exact product.
\<close>

record CacheMetrics =
  total_requests :: int
  cache_hits :: int
  cache_misses :: int
  cache_bypass :: int
  cache_stale :: int
  cache_updating :: int
  cache_revalidated :: int
  error_5xx :: int
  error_4xx :: int
  total_bytes :: int
  latencies :: "pyfloat list"

definition new_CacheMetrics :: CacheMetrics where
  "new_CacheMetrics =
     \<lparr>total_requests = 0, cache_hits = 0, cache_misses = 0, cache_bypass = 0, cache_stale = 0,
      cache_updating = 0, cache_revalidated = 0, error_5xx = 0, error_4xx = 0, total_bytes = 0,
      latencies = []\<rparr>"

definition hit_ratio :: "CacheMetrics \<Rightarrow> error + real" where
  "hit_ratio m =
     (let total = cache_hits m + cache_misses m
      in if total = 0 then Inr 0 else truediv (cache_hits m) total)"

definition error_rate :: "CacheMetrics \<Rightarrow> error + real" where
  "error_rate m =
     (if total_requests m = 0 then Inr 0
      else truediv (error_5xx m + error_4xx m) (total_requests m))"

definition median :: "pyfloat list \<Rightarrow> error + pyfloat" where
  "median xs =
     (let data = sort xs; n = length data
      in if n = 0 then Inl StatisticsError
         else if n mod 2 = 1 then list_getitem data (int (n div 2))
         else (let i = int (n div 2)
               in case list_getitem data (i - 1) of
                    Inl e \<Rightarrow> Inl e
                  | Inr a \<Rightarrow> (case list_getitem data i of
                                Inl e \<Rightarrow> Inl e
                              | Inr b \<Rightarrow> Inr (fdiv2 (fadd a b)))))"

definition p50_latency :: "CacheMetrics \<Rightarrow> error + pyfloat" where
  "p50_latency m = (if latencies m = [] then Inr (Fin 0) else median (latencies m))"

definition p95_latency :: "CacheMetrics \<Rightarrow> error + pyfloat" where
  "p95_latency m =
     (if latencies m = [] then Inr (Fin 0)
      else (let sorted_lat = sort (latencies m);
                idx = \<lfloor>real (length sorted_lat) * 0.95\<rfloor>
            in if idx < int (length sorted_lat) then list_getitem sorted_lat idx
               else list_getitem sorted_lat (- 1)))"

definition p99_latency :: "CacheMetrics \<Rightarrow> error + pyfloat" where
  "p99_latency m =
     (if latencies m = [] then Inr (Fin 0)
      else (let sorted_lat = sort (latencies m);
                idx = \<lfloor>real (length sorted_lat) * 0.99\<rfloor>
            in if idx < int (length sorted_lat) then list_getitem sorted_lat idx
               else list_getitem sorted_lat (- 1)))"

section \<open>Folding one line\<close>

text \<open>
  \<open>process_log_line line m\<close> is the effect of \<^verbatim>\<open>MetricsAnalyzer.process_log_line\<close> on the
  object \<^verbatim>\<open>self.metrics\<close> refers to: \<open>Inr m'\<close> when the method returns and leaves \<open>m'\<close>,
  \<open>Inl (e, m')\<close> when it raises \<open>e\<close> and leaves \<open>m'\<close>, the updates made before the raise.
  \<open>state_left\<close> is the aggregate either way. \<open>count_cache_status\<close> is the \<^verbatim>\<open>if/elif\<close> chain
  over the trimmed tag, \<open>count_status\<close> the one over the status code, \<open>append_latency\<close>
  the final \<^verbatim>\<open>try/except (ValueError, KeyError)\<close>. \<^verbatim>\<open>if not parsed\<close> is true of \<^verbatim>\<open>None\<close> and
  of an empty dictionary.
\<close>

definition state_left :: "(error \<times> 'a) + 'a \<Rightarrow> 'a" where
  "state_left r = (case r of Inl (e, s) \<Rightarrow> s | Inr s \<Rightarrow> s)"

definition count_cache_status :: "string \<Rightarrow> CacheMetrics \<Rightarrow> CacheMetrics" where
  "count_cache_status cache_status m =
     (if cache_status = ''HIT'' then m\<lparr>cache_hits := cache_hits m + 1\<rparr>
      else if cache_status = ''MISS'' then m\<lparr>cache_misses := cache_misses m + 1\<rparr>
      else if cache_status = ''BYPASS'' then m\<lparr>cache_bypass := cache_bypass m + 1\<rparr>
      else if cache_status = ''STALE'' then m\<lparr>cache_stale := cache_stale m + 1\<rparr>
      else if cache_status = ''UPDATING'' then m\<lparr>cache_updating := cache_updating m + 1\<rparr>
      else if cache_status = ''REVALIDATED''
        then m\<lparr>cache_revalidated := cache_revalidated m + 1\<rparr>
      else m)"

definition count_status :: "int \<Rightarrow> CacheMetrics \<Rightarrow> CacheMetrics" where
  "count_status status m =
     (if 500 \<le> status \<and> status < 600 then m\<lparr>error_5xx := error_5xx m + 1\<rparr>
      else if 400 \<le> status \<and> status < 500 then m\<lparr>error_4xx := error_4xx m + 1\<rparr>
      else m)"

definition append_latency :: "groups \<Rightarrow> CacheMetrics \<Rightarrow> (error \<times> CacheMetrics) + CacheMetrics" where
  "append_latency parsed m =
     (let attempt =
            (case dict_getitem parsed ''latency'' of
               Inl e \<Rightarrow> Inl e
             | Inr s \<Rightarrow> (case py_float s of
                           Inl e \<Rightarrow> Inl e
                         | Inr latency \<Rightarrow> Inr (m\<lparr>latencies := latencies m @ [latency]\<rparr>)))
      in case attempt of
           Inl e \<Rightarrow> if e = ValueError \<or> e = KeyError then Inr m else Inl (e, m)
         | Inr m' \<Rightarrow> Inr m')"

definition process_log_line :: "string \<Rightarrow> CacheMetrics \<Rightarrow> (error \<times> CacheMetrics) + CacheMetrics" where
  "process_log_line line m =
     (case parse_line line of
        None \<Rightarrow> Inr m
      | Some parsed \<Rightarrow>
          if parsed = [] then Inr m
          else (let m1 = m\<lparr>total_requests := total_requests m + 1\<rparr>
                in case dict_getitem parsed ''cache_status'' of
                     Inl e \<Rightarrow> Inl (e, m1)
                   | Inr cs \<Rightarrow>
                       (let m2 = count_cache_status (strip cs) m1
                        in case dict_getitem parsed ''status'' of
                             Inl e \<Rightarrow> Inl (e, m2)
                           | Inr st \<Rightarrow>
                               (case py_int st of
                                  Inl e \<Rightarrow> Inl (e, m2)
                                | Inr status \<Rightarrow>
                                    (let m3 = count_status status m2
                                     in case dict_getitem parsed ''bytes'' of
                                          Inl e \<Rightarrow> Inl (e, m3)
                                        | Inr bs \<Rightarrow>
                                            (case py_int bs of
                                               Inl e \<Rightarrow> Inl (e, m3)
                                             | Inr b \<Rightarrow>
                                                 append_latency parsed
                                                   (m3\<lparr>total_bytes := total_bytes m3 + b\<rparr>)))))))"

section \<open>Analysing a block of text\<close>

text \<open>
  \<open>splitlines\<close> is \<^verbatim>\<open>str.splitlines\<close>: a line ends at LF, VT, FF, CR, FS, GS, RS or NEL, CR LF
  counts once, and no empty line follows a final line end.

  \<^verbatim>\<open>CacheMetrics\<close> objects live in a store; \<open>alloc\<close> creates one at a fresh address. A
  \<^verbatim>\<open>MetricsAnalyzer\<close> holds the address of its current aggregate in \<open>metrics\<close>.
  \<open>analyzer_process_log_line\<close> is the method \<^verbatim>\<open>process_log_line\<close> acting through that address;
  \<open>process_lines\<close> is the \<^verbatim>\<open>for\<close> loop of \<^verbatim>\<open>process_log_content\<close>, which an exception leaves
  at once. \<open>process_log_content\<close> returns the address of the aggregate together with the
  analyzer and the store it leaves, or the exception with the analyzer and the store.
\<close>

definition is_linebreak :: "char \<Rightarrow> bool" where
  "is_linebreak c = ((10 \<le> ord c \<and> ord c \<le> 13) \<or> (28 \<le> ord c \<and> ord c \<le> 30) \<or> ord c = 133)"

fun splitlines_from :: "string \<Rightarrow> string \<Rightarrow> string list" where
  "splitlines_from cur [] = (if cur = [] then [] else [rev cur])"
| "splitlines_from cur [c] =
     (if is_linebreak c then [rev cur] else [rev (c # cur)])"
| "splitlines_from cur (c # d # ds) =
     (if c = CHR 0x0D \<and> d = CHR 0x0A then rev cur # splitlines_from [] ds
      else if is_linebreak c then rev cur # splitlines_from [] (d # ds)
      else splitlines_from (c # cur) (d # ds))"

definition splitlines :: "string \<Rightarrow> string list" where
  "splitlines s = splitlines_from [] s"

record store =
  cells :: "nat \<Rightarrow> CacheMetrics"
  next_ref :: nat

definition alloc :: "CacheMetrics \<Rightarrow> store \<Rightarrow> nat \<times> store" where
  "alloc v st = (next_ref st, st\<lparr>cells := (cells st)(next_ref st := v), next_ref := Suc (next_ref st)\<rparr>)"

record MetricsAnalyzer =
  metrics :: nat

definition analyzer_process_log_line ::
    "MetricsAnalyzer \<Rightarrow> string \<Rightarrow> store \<Rightarrow> (error \<times> store) + store" where
  "analyzer_process_log_line self line st =
     (case process_log_line line (cells st (metrics self)) of
        Inl (e, m') \<Rightarrow> Inl (e, st\<lparr>cells := (cells st)(metrics self := m')\<rparr>)
      | Inr m' \<Rightarrow> Inr (st\<lparr>cells := (cells st)(metrics self := m')\<rparr>))"

fun process_lines :: "MetricsAnalyzer \<Rightarrow> string list \<Rightarrow> store \<Rightarrow> (error \<times> store) + store" where
  "process_lines self [] st = Inr st"
| "process_lines self (line # rest) st =
     (if strip line \<noteq> []
      then (case analyzer_process_log_line self line st of
              Inl raised \<Rightarrow> Inl raised
            | Inr st' \<Rightarrow> process_lines self rest st')
      else process_lines self rest st)"

definition process_log_content ::
    "string \<Rightarrow> MetricsAnalyzer \<Rightarrow> store \<Rightarrow>
     (error \<times> MetricsAnalyzer \<times> store) + (nat \<times> MetricsAnalyzer \<times> store)" where
  "process_log_content content self st =
     (let (r, st1) = alloc new_CacheMetrics st;
          self1 = self\<lparr>metrics := r\<rparr>
      in case process_lines self1 (splitlines content) st1 of
           Inl (e, st2) \<Rightarrow> Inl (e, self1, st2)
         | Inr st2 \<Rightarrow> Inr (metrics self1, self1, st2))"

section \<open>Auxiliary notions for the proofs\<close>

text \<open>
  A pattern is \<open>delimited\<close> when every repetition is followed by a literal whose first
  character lies outside the repeated class. \<open>reps\<close> lists the groups of a pattern and
  \<open>cap_ok\<close> says that a captured text fits its group. \<open>six\<close> lists the cache-status
  counters, \<open>reachable\<close> are the aggregates obtained from a fresh one by processing lines,
  whether the call returned or raised, and \<open>counters_ok\<close> is the invariant they satisfy.
  \<open>is_double\<close> holds of the floats that are non-negative doubles or infinity.
\<close>

fun delimited :: "node list \<Rightarrow> bool" where
  "delimited [] = True"
| "delimited (Lit l # ps) = delimited ps"
| "delimited (Rep name lo cls # Lit (c # cs) # ps) = (\<not> class_match cls c \<and> delimited ps)"
| "delimited (Rep name lo cls # ps) = False"

fun reps :: "node list \<Rightarrow> (string \<times> nat \<times> cclass) list" where
  "reps [] = []"
| "reps (Lit l # ps) = reps ps"
| "reps (Rep name lo cls # ps) = (name, lo, cls) # reps ps"

fun cap_ok :: "string \<times> string \<Rightarrow> string \<times> nat \<times> cclass \<Rightarrow> bool" where
  "cap_ok (name, v) (name', lo, cls) = (name = name' \<and> lo \<le> length v \<and> list_all (class_match cls) v)"

definition six :: "CacheMetrics \<Rightarrow> int list" where
  "six m = [cache_hits m, cache_misses m, cache_bypass m, cache_stale m, cache_updating m,
            cache_revalidated m]"

inductive reachable :: "CacheMetrics \<Rightarrow> bool" where
  fresh: "reachable new_CacheMetrics"
| step: "reachable m \<Longrightarrow> state_left (process_log_line line m) = m' \<Longrightarrow> reachable m'"

definition counters_ok :: "CacheMetrics \<Rightarrow> bool" where
  "counters_ok m =
     (list_all (\<lambda>c. 0 \<le> c) (six m) \<and> 0 \<le> error_4xx m \<and> 0 \<le> error_5xx m \<and>
      error_4xx m + error_5xx m \<le> total_requests m \<and> sum_list (six m) \<le> total_requests m)"

fun is_double :: "pyfloat \<Rightarrow> bool" where
  "is_double (Fin x) = (0 \<le> x \<and> round_double x = Fin x)"
| "is_double Inf = True"

text \<open>
  The value of the float \<^verbatim>\<open>1e308\<close>, the double nearest to \<open>10 ^ 308\<close>.
\<close>

definition float_1e308 :: real where
  "float_1e308 = 5010420900022432 * 2 ^ 971"

text \<open>
  The percentile policy in the words of the specification: sort ascending, take the
  element at index \<open>floor (count * fraction)\<close>, clamped to the last element; an empty
  observation list yields \<open>0.0\<close>.
\<close>

definition rank_index_percentile :: "real \<Rightarrow> pyfloat list \<Rightarrow> pyfloat" where
  "rank_index_percentile fraction obs =
     (if obs = [] then Fin 0
      else (let ascending = sort obs; count = length ascending;
                index = nat \<lfloor>real count * fraction\<rfloor>
            in ascending ! (if index \<ge> count then count - 1 else index)))"

text \<open>
  The statistical median in the words of the specification: the middle value, or the
  average of the two middle values when the count is even, the average being the float
  sum halved; \<open>0.0\<close> on an empty list.
\<close>

definition statistical_median :: "pyfloat list \<Rightarrow> pyfloat" where
  "statistical_median obs =
     (if obs = [] then Fin 0
      else (let ascending = sort obs; count = length ascending
            in if odd count then ascending ! (count div 2)
               else fdiv2 (fadd (ascending ! (count div 2 - 1)) (ascending ! (count div 2)))))"

text \<open>
  The outcome of the loop of \<open>process_log_content\<close> on the aggregate it works on.
\<close>

fun fold_lines :: "string list \<Rightarrow> CacheMetrics \<Rightarrow> (error \<times> CacheMetrics) + CacheMetrics" where
  "fold_lines [] m = Inr m"
| "fold_lines (line # rest) m =
     (if strip line \<noteq> []
      then (case process_log_line line m of
              Inl raised \<Rightarrow> Inl raised
            | Inr m' \<Rightarrow> fold_lines rest m')
      else fold_lines rest m)"

section \<open>The matcher on delimited patterns\<close>

declare match_back.simps [simp del]

lemma match_lit_Some: "match_lit l s = Some r \<longleftrightarrow> s = l @ r"
  by (induction l s rule: match_lit.induct) auto

lemma match_lit_prefix [simp]: "match_lit l (l @ r) = Some r"
  by (simp add: match_lit_Some)

lemma match_lit_append: "match_lit l s = Some r \<Longrightarrow> match_lit l (s @ t) = Some (r @ t)"
  by (simp add: match_lit_Some)

lemma run_char: "k < length (takeWhile P s) \<Longrightarrow> k < length s \<and> P (s ! k)"
proof -
  assume k: "k < length (takeWhile P s)"
  have "takeWhile P s ! k \<in> set (takeWhile P s)" using k by simp
  then have "P (takeWhile P s ! k)" by (rule set_takeWhileD [THEN conjunct2])
  moreover have "takeWhile P s ! k = s ! k" using k by (rule takeWhile_nth)
  moreover have "length (takeWhile P s) \<le> length s" by (rule length_takeWhile_le)
  ultimately show ?thesis using k by simp
qed

lemma lit_inside_run:
  assumes "\<not> P c" and "k < length (takeWhile P s)"
  shows "match_lit (c # cs) (drop k s) = None"
proof -
  from run_char [OF assms(2)] have "k < length s" and "P (s ! k)" by simp_all
  then have "drop k s = s ! k # drop (Suc k) s" by (simp add: Cons_nth_drop_Suc)
  moreover have "s ! k \<noteq> c" using \<open>P (s ! k)\<close> assms(1) by auto
  ultimately show ?thesis by simp
qed

lemma match_back_inside_run:
  assumes "\<not> class_match cls c"
  shows "k < length (takeWhile (class_match cls) s) \<Longrightarrow>
         match_back name lo (Lit (c # cs) # ps) s k = None"
proof (induction k)
  case 0
  then have "match_lit (c # cs) (drop 0 s) = None"
    by (intro lit_inside_run [where P = "class_match cls"] assms)
  then show ?case by (subst match_back.simps) simp
next
  case (Suc k)
  then have "match_back name lo (Lit (c # cs) # ps) s k = None" by simp
  moreover have "match_lit (c # cs) (drop (Suc k) s) = None"
    using Suc.prems by (intro lit_inside_run [where P = "class_match cls"] assms)
  ultimately show ?case by (subst match_back.simps) simp
qed

lemma match_rep_delimited:
  assumes "\<not> class_match cls c"
  shows "match_nodes (Rep name lo cls # Lit (c # cs) # ps) s =
           (if length (takeWhile (class_match cls) s) < lo then None
            else (case match_nodes (Lit (c # cs) # ps) (dropWhile (class_match cls) s) of
                    None \<Rightarrow> None
                  | Some g \<Rightarrow> Some ((name, takeWhile (class_match cls) s) # g)))"
proof -
  let ?P = "class_match cls"
  let ?k = "length (takeWhile ?P s)"
  have d: "drop ?k s = dropWhile ?P s" by (rule dropWhile_eq_drop [symmetric])
  have t: "take ?k s = takeWhile ?P s" by (rule takeWhile_eq_take [symmetric])
  have below: "match_back name lo (Lit (c # cs) # ps) s (?k - 1) = None" if "lo < ?k"
    using that by (intro match_back_inside_run [OF assms]) simp
  show ?thesis
  proof (cases "?k < lo")
    case True
    then show ?thesis by simp
  next
    case False
    show ?thesis
    proof (cases "match_nodes (Lit (c # cs) # ps) (dropWhile ?P s)")
      case None
      then have "match_back name lo (Lit (c # cs) # ps) s ?k = None"
        using below False by (subst match_back.simps) (simp only: d t option.case, auto)
      with False None show ?thesis by (simp add: Let_def)
    next
      case (Some g)
      then have "match_back name lo (Lit (c # cs) # ps) s ?k = Some ((name, takeWhile ?P s) # g)"
        by (subst match_back.simps) (simp only: d t option.case)
      with False Some show ?thesis by (simp add: Let_def)
    qed
  qed
qed

lemma match_nodes_append:
  "delimited ps \<Longrightarrow> match_nodes ps s = Some g \<Longrightarrow> match_nodes ps (s @ t) = Some g"
proof (induction ps arbitrary: s g rule: delimited.induct)
  case 1
  then show ?case by simp
next
  case (2 l ps)
  then show ?case by (auto split: option.splits simp: match_lit_Some)
next
  case (3 name lo cls c cs ps)
  let ?P = "class_match cls"
  from "3.prems" have nc: "\<not> ?P c" and dl: "delimited ps" by simp_all
  from "3.prems"(2) obtain g' where
    len: "\<not> length (takeWhile ?P s) < lo" and
    inner: "match_nodes (Lit (c # cs) # ps) (dropWhile ?P s) = Some g'" and
    g: "g = (name, takeWhile ?P s) # g'"
    by (auto simp: match_rep_delimited [OF nc] simp del: match_nodes.simps
        split: if_splits option.splits)
  from inner obtain r where r: "dropWhile ?P s = (c # cs) @ r" and rest: "match_nodes ps r = Some g'"
    by (auto split: option.splits simp: match_lit_Some simp del: match_lit.simps)
  from r have "c \<in> set (dropWhile ?P s)" by simp
  then have cs: "c \<in> set s" by (rule set_dropWhileD)
  have tw: "takeWhile ?P (s @ t) = takeWhile ?P s" using cs nc by (rule takeWhile_append1)
  have dw: "dropWhile ?P (s @ t) = dropWhile ?P s @ t" using cs nc by (rule dropWhile_append1)
  have "match_nodes ps (r @ t) = Some g'" using "3.IH" [OF _ rest] nc dl by simp
  moreover have "match_lit (c # cs) (dropWhile ?P s @ t) = Some (r @ t)"
    by (simp add: r match_lit_Some del: match_lit.simps)
  ultimately have "match_nodes (Lit (c # cs) # ps) (dropWhile ?P s @ t) = Some g'"
    by (simp del: match_lit.simps)
  then show ?case using len g by (simp add: match_rep_delimited [OF nc] tw dw del: match_nodes.simps)
qed simp_all

lemma LOG_PATTERN_delimited: "delimited LOG_PATTERN"
  by (simp add: LOG_PATTERN_def isdecimal_def isspace_def isalnum_def ord_def)

section \<open>What a match captures\<close>

lemma take_in_run:
  assumes "k \<le> length (takeWhile P s)"
  shows "length (take k s) = k \<and> list_all P (take k s)"
proof -
  have "take k (takeWhile P s) = take k (take (length (takeWhile P s)) s)"
    by (simp only: takeWhile_eq_take [symmetric])
  then have "take k s = take k (takeWhile P s)"
    using assms by (simp add: min_def)
  moreover have "list_all P (take k (takeWhile P s))"
    by (auto simp: list_all_iff dest!: in_set_takeD set_takeWhileD)
  ultimately show ?thesis using assms by simp
qed

lemma match_back_caps:
  assumes IH: "\<And>s g. match_nodes ps s = Some g \<Longrightarrow> list_all2 cap_ok g (reps ps)"
  shows "match_back name lo ps s k = Some g \<Longrightarrow> lo \<le> k \<Longrightarrow>
         k \<le> length (takeWhile (class_match cls) s) \<Longrightarrow>
         list_all2 cap_ok g ((name, lo, cls) # reps ps)"
proof (induction k arbitrary: g)
  case 0
  from "0.prems"(1) obtain g' where "match_nodes ps (drop 0 s) = Some g'" "g = (name, take 0 s) # g'"
    by (subst (asm) match_back.simps) (auto split: option.splits if_splits)
  then show ?case using IH "0.prems" by auto
next
  case (Suc k)
  show ?case
  proof (cases "match_nodes ps (drop (Suc k) s)")
    case (Some g')
    then have g: "g = (name, take (Suc k) s) # g'"
      using Suc.prems(1) by (subst (asm) match_back.simps) simp
    from take_in_run [OF Suc.prems(3)] IH [OF Some] Suc.prems(2)
    show ?thesis unfolding g by simp
  next
    case None
    then have "\<not> Suc k \<le> lo" and "match_back name lo ps s k = Some g"
      using Suc.prems(1) by (subst (asm) match_back.simps, simp split: if_splits)+
    then show ?thesis using Suc.IH [of g] Suc.prems by simp
  qed
qed

lemma match_nodes_caps: "match_nodes ps s = Some g \<Longrightarrow> list_all2 cap_ok g (reps ps)"
proof (induction ps arbitrary: s g rule: reps.induct)
  case 1
  then show ?case by simp
next
  case (2 l ps)
  then show ?case by (auto split: option.splits)
next
  case (3 name lo cls ps)
  from "3.prems" have "lo \<le> length (takeWhile (class_match cls) s)"
    and "match_back name lo ps s (length (takeWhile (class_match cls) s)) = Some g"
    by (simp_all add: Let_def split: if_splits)
  then show ?case using match_back_caps [OF "3.IH"] by simp
qed

lemma class_digit: "list_all (class_match (In [Digit])) v = list_all isdecimal v"
  by (simp add: list_all_iff)

lemma class_digit_dot:
  "list_all (class_match (In [Digit, Chr CHR ''.''])) v = list_all (\<lambda>c. isdecimal c \<or> c = CHR ''.'') v"
  by (simp add: list_all_iff)

lemma parse_line_groups:
  assumes "parse_line line = Some g"
  shows "\<exists>ip tm me pa pr st bs la cs.
           g = [(''ip'', ip), (''time'', tm), (''method'', me), (''path'', pa), (''protocol'', pr),
                (''status'', st), (''bytes'', bs), (''latency'', la), (''cache_status'', cs)] \<and>
           st \<noteq> [] \<and> list_all isdecimal st \<and> bs \<noteq> [] \<and> list_all isdecimal bs \<and>
           la \<noteq> [] \<and> list_all (\<lambda>c. isdecimal c \<or> c = CHR ''.'') la"
proof -
  from assms have "list_all2 cap_ok g (reps LOG_PATTERN)"
    unfolding parse_line_def by (rule match_nodes_caps)
  then show ?thesis
    unfolding LOG_PATTERN_def reps.simps
    by (auto simp: list_all2_Cons2 class_digit class_digit_dot simp del: class_match.simps)
qed

section \<open>Rounding to doubles\<close>

lemma rne_int [simp]: "rne (of_int n) = n"
  by (simp add: rne_def)

lemma rne_range: "\<lfloor>q\<rfloor> \<le> rne q \<and> rne q \<le> \<lfloor>q\<rfloor> + 1"
  by (simp add: rne_def)

lemma rne_mono: "q \<le> q' \<Longrightarrow> rne q \<le> rne q'"
proof -
  assume le: "q \<le> q'"
  then have f: "\<lfloor>q\<rfloor> \<le> \<lfloor>q'\<rfloor>" by (rule floor_mono)
  show ?thesis
  proof (cases "\<lfloor>q\<rfloor> = \<lfloor>q'\<rfloor>")
    case True
    with le have "q - of_int \<lfloor>q\<rfloor> \<le> q' - of_int \<lfloor>q'\<rfloor>" by simp
    then show ?thesis using True by (auto simp: rne_def)
  next
    case False
    with f have "\<lfloor>q\<rfloor> + 1 \<le> \<lfloor>q'\<rfloor>" by simp
    then show ?thesis using rne_range [of q] rne_range [of q'] by linarith
  qed
qed

lemma rne_ge: "of_int n \<le> q \<Longrightarrow> n \<le> rne q"
  using rne_mono [of "of_int n" q] by simp

lemma rne_le: "q \<le> of_int n \<Longrightarrow> rne q \<le> n"
  using rne_mono [of q "of_int n"] by simp

lemma double_exp_char:
  assumes "0 \<le> s"
  shows "s < 2 ^ (double_exp s + 53) \<and> (double_exp s = 0 \<or> 2 ^ (double_exp s + 52) \<le> s)"
proof -
  let ?n = "nat \<lfloor>s\<rfloor>"
  let ?f = "floorlog 2 ?n"
  have n_le: "real ?n \<le> s" using assms by simp
  have s_lt: "s < real ?n + 1" using assms by linarith
  show ?thesis
  proof (cases "?n = 0")
    case True
    then have "double_exp s = 0" by (simp add: double_exp_def floorlog_def)
    moreover have "s < 1" using s_lt True by simp
    moreover have "(1::real) \<le> 2 ^ 53" by simp
    ultimately show ?thesis by simp
  next
    case False
    then have pos: "0 < ?n" by simp
    from floorlog_bounds [OF pos, of 2]
    have lo: "2 ^ (?f - 1) \<le> ?n" and hi: "?n < 2 ^ ?f" by simp_all
    from hi have "?n + 1 \<le> 2 ^ ?f" by arith
    then have "real (?n + 1) \<le> real (2 ^ ?f)" by (rule of_nat_mono)
    then have hi': "s < 2 ^ ?f" using s_lt by simp
    have "(2::real) ^ (?f - 1) = real (2 ^ (?f - 1))" by simp
    also have "\<dots> \<le> real ?n" using lo by (rule of_nat_mono)
    also have "\<dots> \<le> s" by (rule n_le)
    finally have lo': "2 ^ (?f - 1) \<le> s" .
    show ?thesis
    proof (cases "?f \<le> 53")
      case True
      then have k: "double_exp s = 0" by (simp add: double_exp_def)
      have "(2::real) ^ ?f \<le> 2 ^ 53" using True by (intro power_increasing) simp_all
      with hi' k show ?thesis by simp
    next
      case False
      then have k: "double_exp s + 53 = ?f" "double_exp s + 52 = ?f - 1"
        by (simp_all add: double_exp_def)
      show ?thesis unfolding k using hi' lo' by simp
    qed
  qed
qed

lemma double_exp_unique:
  assumes "0 \<le> s" and "s < 2 ^ (j + 53)" and "j = 0 \<or> 2 ^ (j + 52) \<le> s"
  shows "double_exp s = j"
proof (rule ccontr)
  let ?k = "double_exp s"
  assume ne: "?k \<noteq> j"
  from double_exp_char [OF assms(1)]
  have hi: "s < 2 ^ (?k + 53)" and lo: "?k = 0 \<or> 2 ^ (?k + 52) \<le> s" by simp_all
  show False
  proof (cases "?k < j")
    case True
    then have "2 ^ (j + 52) \<le> s" using assms(3) by auto
    moreover have "(2::real) ^ (?k + 53) \<le> 2 ^ (j + 52)"
      using True by (intro power_increasing) simp_all
    ultimately show False using hi by linarith
  next
    case False
    with ne have lt: "j < ?k" by simp
    then have "2 ^ (?k + 52) \<le> s" using lo by auto
    moreover have "(2::real) ^ (j + 53) \<le> 2 ^ (?k + 52)"
      using lt by (intro power_increasing) simp_all
    ultimately show False using assms(2) by linarith
  qed
qed

lemma double_exp_mono: "s \<le> t \<Longrightarrow> double_exp s \<le> double_exp t"
  unfolding double_exp_def
  by (intro diff_le_mono floorlog_mono nat_mono floor_mono)

lemma round_scaled_nonneg: "0 \<le> s \<Longrightarrow> 0 \<le> round_scaled s"
proof -
  assume "0 \<le> s"
  then have "of_int 0 \<le> s / 2 ^ double_exp s" by simp
  then have "0 \<le> rne (s / 2 ^ double_exp s)" by (rule rne_ge)
  then show ?thesis by (simp add: round_scaled_def)
qed

lemma round_scaled_upper:
  assumes "0 \<le> s"
  shows "round_scaled s \<le> 2 ^ (double_exp s + 53)"
proof -
  let ?k = "double_exp s"
  from double_exp_char [OF assms] have "s < 2 ^ (?k + 53)" by simp
  then have "s / 2 ^ ?k \<le> 2 ^ 53" by (simp add: power_add field_simps)
  then have "s / 2 ^ ?k \<le> of_int (2 ^ 53)" by simp
  then have "rne (s / 2 ^ ?k) \<le> 2 ^ 53" by (rule rne_le)
  then have "real_of_int (rne (s / 2 ^ ?k)) \<le> real_of_int (2 ^ 53)" by (rule of_int_le_iff [THEN iffD2])
  then have "real_of_int (rne (s / 2 ^ ?k)) * 2 ^ ?k \<le> 2 ^ 53 * 2 ^ ?k"
    by (intro mult_right_mono) simp_all
  then show ?thesis by (simp add: round_scaled_def power_add mult.commute)
qed

lemma round_scaled_lower:
  assumes "0 \<le> s" and "double_exp s \<noteq> 0"
  shows "2 ^ (double_exp s + 52) \<le> round_scaled s"
proof -
  let ?k = "double_exp s"
  from double_exp_char [OF assms(1)] assms(2) have "2 ^ (?k + 52) \<le> s" by simp
  then have "2 ^ 52 \<le> s / 2 ^ ?k" by (simp add: power_add field_simps)
  then have "of_int (2 ^ 52) \<le> s / 2 ^ ?k" by simp
  then have "2 ^ 52 \<le> rne (s / 2 ^ ?k)" by (rule rne_ge)
  then have "real_of_int (2 ^ 52) \<le> real_of_int (rne (s / 2 ^ ?k))" by (rule of_int_le_iff [THEN iffD2])
  then have "2 ^ 52 * 2 ^ ?k \<le> real_of_int (rne (s / 2 ^ ?k)) * 2 ^ ?k"
    by (intro mult_right_mono) simp_all
  then show ?thesis by (simp add: round_scaled_def power_add mult.commute)
qed

lemma round_scaled_mono:
  assumes "0 \<le> s" and "s \<le> t"
  shows "round_scaled s \<le> round_scaled t"
proof (cases "double_exp s = double_exp t")
  case True
  have "s / 2 ^ double_exp t \<le> t / 2 ^ double_exp t"
    using assms(2) by (intro divide_right_mono) simp_all
  then have "rne (s / 2 ^ double_exp t) \<le> rne (t / 2 ^ double_exp t)" by (rule rne_mono)
  then have "real_of_int (rne (s / 2 ^ double_exp t)) \<le> real_of_int (rne (t / 2 ^ double_exp t))"
    by simp
  then show ?thesis unfolding round_scaled_def True by (intro mult_right_mono) simp_all
next
  case False
  with double_exp_mono [OF assms(2)] have lt: "double_exp s < double_exp t" by simp
  have t0: "0 \<le> t" using assms by simp
  have "round_scaled s \<le> 2 ^ (double_exp s + 53)" using assms(1) by (rule round_scaled_upper)
  also have "(2::real) ^ (double_exp s + 53) \<le> 2 ^ (double_exp t + 52)"
    using lt by (intro power_increasing) simp_all
  also have "\<dots> \<le> round_scaled t" using t0 lt by (intro round_scaled_lower) simp_all
  finally show ?thesis .
qed

lemma round_scaled_double:
  assumes "0 \<le> s" and "round_scaled s = s"
  shows "round_scaled (2 * s) = 2 * s"
proof -
  let ?k = "double_exp s"
  let ?m = "rne (s / 2 ^ ?k)"
  from assms(2) have rep: "s = of_int ?m * 2 ^ ?k" by (simp add: round_scaled_def)
  from double_exp_char [OF assms(1)]
  have hi: "s < 2 ^ (?k + 53)" and lo: "?k = 0 \<or> 2 ^ (?k + 52) \<le> s" by simp_all
  show ?thesis
  proof (cases "s < 2 ^ 52")
    case True
    have k0: "?k = 0" using assms(1) True by (intro double_exp_unique) simp_all
    have "2 * s < 2 ^ (0 + 53)" using True by simp
    then have k2: "double_exp (2 * s) = 0" using assms(1) by (intro double_exp_unique) simp_all
    from rep k0 have "s = of_int ?m" by simp
    then have "2 * s = of_int (2 * ?m)" by simp
    then have "rne (2 * s) = 2 * ?m" by (simp only: rne_int)
    then show ?thesis using \<open>s = of_int ?m\<close> by (simp add: round_scaled_def k2)
  next
    case False
    then have low: "2 ^ (?k + 52) \<le> s" using lo by auto
    have p: "(2::real) ^ (Suc ?k + 53) = 2 * 2 ^ (?k + 53)" "(2::real) ^ (Suc ?k + 52) = 2 * 2 ^ (?k + 52)"
      by (simp_all only: add_Suc power_Suc)
    have "2 * s < 2 ^ (Suc ?k + 53)" unfolding p using hi by linarith
    moreover have "2 ^ (Suc ?k + 52) \<le> 2 * s" unfolding p using low by linarith
    ultimately have k2: "double_exp (2 * s) = Suc ?k" using assms(1)
      by (intro double_exp_unique) simp_all
    have "round_scaled (2 * s) = of_int ?m * 2 ^ ?k * 2" by (simp add: round_scaled_def k2)
    then show ?thesis using rep by simp
  qed
qed

lemma round_scaled_idem:
  assumes "0 \<le> s"
  shows "round_scaled (round_scaled s) = round_scaled s"
proof -
  let ?k = "double_exp s"
  let ?m = "rne (s / 2 ^ ?k)"
  let ?r = "round_scaled s"
  have r: "?r = of_int ?m * 2 ^ ?k" by (simp add: round_scaled_def)
  have r0: "0 \<le> ?r" using assms by (rule round_scaled_nonneg)
  have up: "?r \<le> 2 ^ (?k + 53)" using assms by (rule round_scaled_upper)
  show ?thesis
  proof (cases "?r = 2 ^ (?k + 53)")
    case True
    have p: "(2::real) ^ (Suc ?k + 53) = 2 * 2 ^ (?k + 53)" "(2::real) ^ (Suc ?k + 52) = 2 ^ (?k + 53)"
      by (simp_all only: add_Suc add_Suc_right power_Suc numeral_eq_Suc pred_numeral_simps arith_simps)
    have pos: "(0::real) < 2 ^ (?k + 53)" by simp
    have "?r < 2 ^ (Suc ?k + 53)" unfolding p True using pos by linarith
    moreover have "2 ^ (Suc ?k + 52) \<le> ?r" unfolding p True by simp
    ultimately have k2: "double_exp ?r = Suc ?k" using r0 by (intro double_exp_unique) simp_all
    have "?r / 2 ^ Suc ?k = of_int (2 ^ 52)" by (simp add: True power_add)
    then have m2: "rne (?r / 2 ^ Suc ?k) = 2 ^ 52" by (simp only: rne_int)
    have "round_scaled ?r = of_int (rne (?r / 2 ^ double_exp ?r)) * 2 ^ double_exp ?r"
      by (rule round_scaled_def)
    also have "\<dots> = of_int (2 ^ 52) * 2 ^ Suc ?k" by (simp only: k2 m2)
    also have "\<dots> = 2 ^ (?k + 53)" by (simp add: power_add)
    finally show ?thesis by (simp only: True)
  next
    case False
    with up have lt: "?r < 2 ^ (?k + 53)" by simp
    have "?k = 0 \<or> 2 ^ (?k + 52) \<le> ?r" using round_scaled_lower [OF assms] by blast
    with lt r0 have k2: "double_exp ?r = ?k" by (intro double_exp_unique)
    have "?r / 2 ^ ?k = of_int ?m" by (simp add: r)
    then have m2: "rne (?r / 2 ^ ?k) = ?m" by (simp only: rne_int)
    have "round_scaled ?r = of_int (rne (?r / 2 ^ double_exp ?r)) * 2 ^ double_exp ?r"
      by (rule round_scaled_def)
    also have "\<dots> = of_int ?m * 2 ^ ?k" by (simp only: k2 m2)
    finally show ?thesis by (simp only: r)
  qed
qed

lemma round_double_Fin:
  assumes "round_double x = Fin r"
  shows "r = round_scaled (x * 2 ^ 1074) / 2 ^ 1074 \<and> r < 2 ^ 1024"
  using assms by (auto simp: round_double_def Let_def split: if_splits)

lemma round_double_mono:
  assumes "0 \<le> x" and "x \<le> y"
  shows "round_double x \<le> round_double y"
proof -
  have "0 \<le> x * 2 ^ 1074" using assms(1) by simp
  moreover have "x * 2 ^ 1074 \<le> y * 2 ^ 1074" using assms(2) by simp
  ultimately have "round_scaled (x * 2 ^ 1074) \<le> round_scaled (y * 2 ^ 1074)"
    by (rule round_scaled_mono)
  then have "round_scaled (x * 2 ^ 1074) / 2 ^ 1074 \<le> round_scaled (y * 2 ^ 1074) / 2 ^ 1074"
    by (intro divide_right_mono) simp_all
  then show ?thesis by (auto simp: round_double_def Let_def)
qed

lemma round_double_twice:
  assumes "is_double (Fin b)"
  shows "round_double (2 * b) = (if 2 ^ 1024 \<le> 2 * b then Inf else Fin (2 * b))"
proof -
  from assms have b0: "0 \<le> b" and rb: "round_double b = Fin b" by simp_all
  from round_double_Fin [OF rb] have "round_scaled (b * 2 ^ 1074) = b * 2 ^ 1074" by simp
  moreover have "0 \<le> b * 2 ^ 1074" using b0 by simp
  ultimately have "round_scaled (2 * (b * 2 ^ 1074)) = 2 * (b * 2 ^ 1074)"
    by (intro round_scaled_double)
  then have "round_scaled (2 * b * 2 ^ 1074) / 2 ^ 1074 = 2 * b" by (simp add: mult.assoc)
  then show ?thesis by (simp add: round_double_def Let_def)
qed

lemma round_double_is_double:
  assumes "0 \<le> x"
  shows "is_double (round_double x)"
proof (cases "round_double x")
  case Inf
  then show ?thesis by simp
next
  case (Fin r)
  let ?s = "x * 2 ^ 1074"
  have s0: "0 \<le> ?s" using assms by simp
  from round_double_Fin [OF Fin] have r: "r = round_scaled ?s / 2 ^ 1074" and lt: "r < 2 ^ 1024"
    by simp_all
  have r0: "0 \<le> r" unfolding r using round_scaled_nonneg [OF s0] by simp
  have "r * 2 ^ 1074 = round_scaled ?s" by (simp add: r)
  then have "round_scaled (r * 2 ^ 1074) = round_scaled ?s"
    using round_scaled_idem [OF s0] by simp
  then have "round_scaled (r * 2 ^ 1074) / 2 ^ 1074 = r" by (simp add: r)
  then have "round_double r = Fin r" using lt by (simp add: round_double_def Let_def)
  then show ?thesis using r0 Fin by simp
qed

lemma round_double_eval:
  assumes "0 \<le> x" and "x * 2 ^ 1074 < 2 ^ (j + 53)" and "j = 0 \<or> 2 ^ (j + 52) \<le> x * 2 ^ 1074"
  shows "round_double x =
           (if (2::real) ^ 1024 \<le> of_int (rne (x * 2 ^ 1074 / 2 ^ j)) * 2 ^ j / 2 ^ 1074 then Inf
            else Fin (of_int (rne (x * 2 ^ 1074 / 2 ^ j)) * 2 ^ j / 2 ^ 1074))"
proof -
  have "double_exp (x * 2 ^ 1074) = j" using assms by (intro double_exp_unique) simp_all
  then show ?thesis by (simp add: round_double_def round_scaled_def Let_def)
qed

lemma half_sum_le_upper:
  assumes "is_double lo" and "is_double hi" and "lo \<le> hi" and "fadd lo hi \<noteq> Inf"
  shows "fdiv2 (fadd lo hi) \<le> hi"
proof -
  from assms(4) obtain a b where lo: "lo = Fin a" and hi: "hi = Fin b"
    by (cases lo; cases hi) simp_all
  from assms(1,2,3) have a0: "0 \<le> a" and b0: "0 \<le> b" and ab: "a \<le> b"
    and rb: "round_double b = Fin b"
    by (simp_all add: lo hi)
  from assms(4) obtain s where s: "round_double (a + b) = Fin s"
    by (cases "round_double (a + b)") (simp_all add: lo hi)
  from round_double_Fin [OF s] have s_lt: "s < 2 ^ 1024"
    and s_eq: "s = round_scaled ((a + b) * 2 ^ 1074) / 2 ^ 1074" by simp_all
  have s0: "0 \<le> s" unfolding s_eq using round_scaled_nonneg [of "(a + b) * 2 ^ 1074"] a0 b0
    by simp
  have "round_double (a + b) \<le> round_double (2 * b)"
    using a0 b0 ab by (intro round_double_mono) simp_all
  then have "Fin s \<le> (if 2 ^ 1024 \<le> 2 * b then Inf else Fin (2 * b))"
    using round_double_twice [of b] assms(2) by (simp add: s hi)
  then have "s \<le> 2 * b" using s_lt by (simp split: if_splits)
  then have "round_double (s / 2) \<le> round_double b"
    using s0 by (intro round_double_mono) simp_all
  then show ?thesis by (simp add: lo hi s rb)
qed

lemma round_twentieth: "round_double (1 / 20) = Fin (3602879701896397 / 72057594037927936)"
  by (subst round_double_eval [where j = 1017]) (simp_all add: rne_def)

lemma round_quarter: "round_double (1 / 4) = Fin (1 / 4)"
  by (subst round_double_eval [where j = 1020]) (simp_all add: rne_def)

lemma le_Inf [simp]: "x \<le> Inf"
  by (cases x) simp_all

lemma round_1e308: "round_double (10 ^ 308) = Fin float_1e308"
  unfolding float_1e308_def
  by (subst round_double_eval [where j = 2045]) (simp_all add: rne_def)

lemma overflow_1e308: "fadd (Fin float_1e308) (Fin float_1e308) = Inf"
  unfolding fadd.simps float_1e308_def
  by (subst round_double_eval [where j = 2046]) (simp_all add: rne_def)

lemma round_small:
  "round_double 1 = Fin 1" "round_double 2 = Fin 2" "round_double 3 = Fin 3"
  "round_double 5 = Fin 5" "round_double (5 / 2) = Fin (5 / 2)"
proof -
  show "round_double 1 = Fin 1"
    by (subst round_double_eval [where j = 1022]) (simp_all add: rne_def)
  show "round_double 2 = Fin 2"
    by (subst round_double_eval [where j = 1023]) (simp_all add: rne_def)
  show "round_double 3 = Fin 3"
    by (subst round_double_eval [where j = 1023]) (simp_all add: rne_def)
  show "round_double 5 = Fin 5"
    by (subst round_double_eval [where j = 1024]) (simp_all add: rne_def)
  show "round_double (5 / 2) = Fin (5 / 2)"
    by (subst round_double_eval [where j = 1023]) (simp_all add: rne_def)
qed

section \<open>The effect of one line\<close>

lemma py_int_digits:
  "s \<noteq> [] \<Longrightarrow> list_all isdecimal s \<Longrightarrow>
   py_int s = (if int_max_str_digits < length s then Inl ValueError else Inr (digits_val s))"
  by (simp add: py_int_def)

lemma py_int_error: "py_int s = Inl e \<Longrightarrow> e = ValueError"
  by (auto simp: py_int_def split: if_splits)

lemma py_float_error: "py_float s = Inl e \<Longrightarrow> e = ValueError"
  by (auto simp: py_float_def Let_def split: list.splits if_splits)

lemma append_latency_found:
  assumes "map_of parsed ''latency'' = Some la"
  shows "append_latency parsed m =
           Inr (case py_float la of Inl e \<Rightarrow> m | Inr v \<Rightarrow> m\<lparr>latencies := latencies m @ [v]\<rparr>)"
  using assms py_float_error [of la]
  by (auto simp: append_latency_def dict_getitem_def split: sum.splits)

lemma process_log_line_unparsed: "parse_line line = None \<Longrightarrow> process_log_line line m = Inr m"
  by (simp add: process_log_line_def)

lemma process_log_line_parsed:
  assumes "parse_line line = Some g"
  shows "\<exists>st bs la cs.
           map_of g ''status'' = Some st \<and> map_of g ''bytes'' = Some bs \<and>
           map_of g ''latency'' = Some la \<and> map_of g ''cache_status'' = Some cs \<and>
           st \<noteq> [] \<and> list_all isdecimal st \<and> bs \<noteq> [] \<and> list_all isdecimal bs \<and>
           process_log_line line m =
             (case py_int st of
                Inl e \<Rightarrow>
                  Inl (e, count_cache_status (strip cs)
                            (m\<lparr>total_requests := total_requests m + 1\<rparr>))
              | Inr status \<Rightarrow>
                  (case py_int bs of
                     Inl e \<Rightarrow>
                       Inl (e, count_status status (count_cache_status (strip cs)
                                 (m\<lparr>total_requests := total_requests m + 1\<rparr>)))
                   | Inr b \<Rightarrow>
                       Inr (case py_float la of
                              Inl e \<Rightarrow>
                                (count_status status (count_cache_status (strip cs)
                                   (m\<lparr>total_requests := total_requests m + 1\<rparr>)))
                                \<lparr>total_bytes := total_bytes m + b\<rparr>
                            | Inr v \<Rightarrow>
                                (count_status status (count_cache_status (strip cs)
                                   (m\<lparr>total_requests := total_requests m + 1\<rparr>)))
                                \<lparr>total_bytes := total_bytes m + b,
                                  latencies := latencies m @ [v]\<rparr>)))"
proof -
  from parse_line_groups [OF assms] obtain ip tm me pa pr st bs la cs where
    g: "g = [(''ip'', ip), (''time'', tm), (''method'', me), (''path'', pa), (''protocol'', pr),
             (''status'', st), (''bytes'', bs), (''latency'', la), (''cache_status'', cs)]"
    and st: "st \<noteq> []" "list_all isdecimal st" and bs: "bs \<noteq> []" "list_all isdecimal bs"
    by blast
  have lk: "map_of g ''status'' = Some st" "map_of g ''bytes'' = Some bs"
    "map_of g ''latency'' = Some la" "map_of g ''cache_status'' = Some cs"
    by (simp_all add: g)
  have tb: "total_bytes (count_status x (count_cache_status y z)) = total_bytes z"
    and lt: "latencies (count_status x (count_cache_status y z)) = latencies z" for x y z
    by (simp_all add: count_status_def count_cache_status_def)
  have ne: "g \<noteq> []" by (simp add: g)
  have eq: "process_log_line line m =
             (case py_int st of
                Inl e \<Rightarrow>
                  Inl (e, count_cache_status (strip cs)
                            (m\<lparr>total_requests := total_requests m + 1\<rparr>))
              | Inr status \<Rightarrow>
                  (case py_int bs of
                     Inl e \<Rightarrow>
                       Inl (e, count_status status (count_cache_status (strip cs)
                                 (m\<lparr>total_requests := total_requests m + 1\<rparr>)))
                   | Inr b \<Rightarrow>
                       Inr (case py_float la of
                              Inl e \<Rightarrow>
                                (count_status status (count_cache_status (strip cs)
                                   (m\<lparr>total_requests := total_requests m + 1\<rparr>)))
                                \<lparr>total_bytes := total_bytes m + b\<rparr>
                            | Inr v \<Rightarrow>
                                (count_status status (count_cache_status (strip cs)
                                   (m\<lparr>total_requests := total_requests m + 1\<rparr>)))
                                \<lparr>total_bytes := total_bytes m + b,
                                  latencies := latencies m @ [v]\<rparr>)))"
    using lk ne assms
    by (auto simp: process_log_line_def dict_getitem_def append_latency_found tb lt Let_def
        split: sum.splits)
  show ?thesis using lk st bs eq by blast
qed

section \<open>Counters of reachable aggregates\<close>

lemmas eval_defs =
  parse_line_def LOG_PATTERN_def strip_def isspace_def ord_def isdecimal_def isalnum_def
  match_back.simps process_log_line_def dict_getitem_def py_int_def int_max_str_digits_def
  py_float_def digits_val_def digit_val_def count_cache_status_def count_status_def
  append_latency_def new_CacheMetrics_def round_twentieth round_quarter


lemma not_found_line_effect:
  "process_log_line
     ''10.0.0.7 - [27/Oct/2025:10:00:01 +0000] \"GET /missing HTTP/1.1\" 404 162 0.250 \"BYPASS\"''
     new_CacheMetrics =
   Inr \<lparr>total_requests = 1, cache_hits = 0, cache_misses = 0, cache_bypass = 1, cache_stale = 0,
        cache_updating = 0, cache_revalidated = 0, error_5xx = 0, error_4xx = 1,
        total_bytes = 162, latencies = [Fin (1 / 4)]\<rparr>"
  by (simp add: eval_defs)

lemma count_fields [simp]:
  "total_requests (count_status x m) = total_requests m"
  "total_requests (count_cache_status t m) = total_requests m"
  "total_bytes (count_status x m) = total_bytes m"
  "total_bytes (count_cache_status t m) = total_bytes m"
  "latencies (count_status x m) = latencies m"
  "latencies (count_cache_status t m) = latencies m"
  "six (count_status x m) = six m"
  "error_4xx (count_cache_status t m) = error_4xx m"
  "error_5xx (count_cache_status t m) = error_5xx m"
  by (simp_all add: count_status_def count_cache_status_def six_def)

lemma count_status_errors:
  "error_4xx (count_status x m) + error_5xx (count_status x m) \<le> error_4xx m + error_5xx m + 1"
  "error_4xx m \<le> error_4xx (count_status x m)"
  "error_5xx m \<le> error_5xx (count_status x m)"
  by (simp_all add: count_status_def)

lemma count_cache_status_six:
  "sum_list (six (count_cache_status t m)) \<le> sum_list (six m) + 1"
  "list_all2 (\<le>) (six m) (six (count_cache_status t m))"
  by (simp_all add: count_cache_status_def six_def)

lemma count_cache_status_other:
  "t \<notin> set [''HIT'', ''MISS'', ''BYPASS'', ''STALE'', ''UPDATING'', ''REVALIDATED''] \<Longrightarrow>
   count_cache_status t m = m"
  by (simp add: count_cache_status_def)

lemma six_simps [simp]:
  "six (m\<lparr>total_requests := a\<rparr>) = six m"
  "six (m\<lparr>total_bytes := b\<rparr>) = six m"
  "six (m\<lparr>latencies := l\<rparr>) = six m"
  by (simp_all add: six_def)

lemma no_verdict_line_effect:
  "parse_line ''10.0.0.9 - [27/Oct/2025:10:00:02 +0000] \"GET /x HTTP/1.1\" 200 10 0.001 \"-\"'' =
     Some [(''ip'', ''10.0.0.9''), (''time'', ''27/Oct/2025:10:00:02 +0000''), (''method'', ''GET''),
           (''path'', ''/x''), (''protocol'', ''HTTP/1.1''), (''status'', ''200''), (''bytes'', ''10''),
           (''latency'', ''0.001''), (''cache_status'', ''-'')]"
  by (simp add: eval_defs)

text \<open>
  What a parsed line leaves behind, whether \<open>process_log_line\<close> returns or raises: the
  request and the cache-status counter are counted before the first conversion, and the
  error counters grow by at most one in all.
\<close>

lemma process_log_line_fields:
  assumes "parse_line line = Some g"
  shows "\<exists>cs m'.
           map_of g ''cache_status'' = Some cs \<and>
           state_left (process_log_line line m) = m' \<and>
           total_requests m' = total_requests m + 1 \<and>
           six m' = six (count_cache_status (strip cs) m) \<and>
           error_4xx m' + error_5xx m' \<le> error_4xx m + error_5xx m + 1 \<and>
           error_4xx m \<le> error_4xx m' \<and> error_5xx m \<le> error_5xx m'"
proof -
  from process_log_line_parsed [OF assms, of m] obtain st bs la cs where
    lk: "map_of g ''cache_status'' = Some cs"
    and eq: "process_log_line line m =
             (case py_int st of
                Inl e \<Rightarrow>
                  Inl (e, count_cache_status (strip cs)
                            (m\<lparr>total_requests := total_requests m + 1\<rparr>))
              | Inr status \<Rightarrow>
                  (case py_int bs of
                     Inl e \<Rightarrow>
                       Inl (e, count_status status (count_cache_status (strip cs)
                                 (m\<lparr>total_requests := total_requests m + 1\<rparr>)))
                   | Inr b \<Rightarrow>
                       Inr (case py_float la of
                              Inl e \<Rightarrow>
                                (count_status status (count_cache_status (strip cs)
                                   (m\<lparr>total_requests := total_requests m + 1\<rparr>)))
                                \<lparr>total_bytes := total_bytes m + b\<rparr>
                            | Inr v \<Rightarrow>
                                (count_status status (count_cache_status (strip cs)
                                   (m\<lparr>total_requests := total_requests m + 1\<rparr>)))
                                \<lparr>total_bytes := total_bytes m + b,
                                  latencies := latencies m @ [v]\<rparr>)))"
    by blast
  let ?m2 = "count_cache_status (strip cs) (m\<lparr>total_requests := total_requests m + 1\<rparr>)"
  have six: "six ?m2 = six (count_cache_status (strip cs) m)"
    by (simp add: count_cache_status_def six_def)
  have e2: "error_4xx ?m2 = error_4xx m" "error_5xx ?m2 = error_5xx m" by simp_all
  have e3: "error_4xx (count_status x ?m2) + error_5xx (count_status x ?m2)
              \<le> error_4xx m + error_5xx m + 1"
    "error_4xx m \<le> error_4xx (count_status x ?m2)"
    "error_5xx m \<le> error_5xx (count_status x ?m2)" for x
    using count_status_errors [where x = x and m = ?m2] by (simp_all add: e2)
  show ?thesis
    by (rule exI [of _ cs], rule exI [of _ "state_left (process_log_line line m)"])
       (auto simp: lk eq state_left_def six e2 e3 split: sum.splits)
qed

lemma counters_ok_step:
  assumes "counters_ok m"
  shows "counters_ok (state_left (process_log_line line m))"
proof (cases "parse_line line")
  case None
  with assms show ?thesis by (simp add: process_log_line_unparsed state_left_def)
next
  case (Some g)
  from process_log_line_fields [OF Some, of m] obtain cs m' where
    m': "state_left (process_log_line line m) = m'"
    and f: "total_requests m' = total_requests m + 1"
      "six m' = six (count_cache_status (strip cs) m)"
      "error_4xx m' + error_5xx m' \<le> error_4xx m + error_5xx m + 1"
      "error_4xx m \<le> error_4xx m'" "error_5xx m \<le> error_5xx m'"
    by blast
  have a: "sum_list (six m') \<le> sum_list (six m) + 1"
    using count_cache_status_six(1) [where t = "strip cs" and m = m] by (simp add: f)
  have b: "list_all2 (\<le>) (six m) (six m')"
    using count_cache_status_six(2) [where t = "strip cs" and m = m] by (simp add: f)
  have "list_all (\<lambda>c. 0 \<le> c) (six m')"
    using b assms unfolding counters_ok_def six_def by auto
  then show ?thesis
    using assms a f unfolding counters_ok_def m' by auto
qed

lemma reachable_counters_ok: "reachable m \<Longrightarrow> counters_ok m"
proof (induction rule: reachable.induct)
  case fresh
  show ?case by (simp add: counters_ok_def new_CacheMetrics_def six_def)
next
  case (step m line m')
  then show ?case using counters_ok_step [of m line] by simp
qed

text \<open>
  Claim C3. The hit ratio is \<open>cache_hits / (cache_hits + cache_misses)\<close>, and \<open>0.0\<close> when
  that denominator is zero. The bypass, stale, updating and revalidated counters enter
  neither the numerator nor the denominator: overwriting them leaves the ratio unchanged.
  Whenever the hit and miss counters are non-negative, as they are in every aggregate the
  analyzer builds, the ratio lies in \<open>[0, 1]\<close>, whatever the other counters hold.
\<close>

theorem hit_ratio_only_hits_and_misses:
  "hit_ratio m =
     Inr (if cache_hits m + cache_misses m = 0 then 0
          else real_of_int (cache_hits m) / real_of_int (cache_hits m + cache_misses m)) \<and>
   hit_ratio (m\<lparr>cache_bypass := b, cache_stale := s, cache_updating := u,
                 cache_revalidated := r\<rparr>) = hit_ratio m \<and>
   (0 \<le> cache_hits m \<and> 0 \<le> cache_misses m \<longrightarrow>
      (\<exists>v. hit_ratio m = Inr v \<and> 0 \<le> v \<and> v \<le> 1)) \<and>
   (reachable m \<longrightarrow> 0 \<le> cache_hits m \<and> 0 \<le> cache_misses m)"
proof (intro conjI impI)
  show eq: "hit_ratio m =
     Inr (if cache_hits m + cache_misses m = 0 then 0
          else real_of_int (cache_hits m) / real_of_int (cache_hits m + cache_misses m))"
    by (simp add: hit_ratio_def truediv_def Let_def)
  show "hit_ratio (m\<lparr>cache_bypass := b, cache_stale := s, cache_updating := u,
                 cache_revalidated := r\<rparr>) = hit_ratio m"
    by (simp add: hit_ratio_def Let_def)
  show "\<exists>v. hit_ratio m = Inr v \<and> 0 \<le> v \<and> v \<le> 1"
    if nn: "0 \<le> cache_hits m \<and> 0 \<le> cache_misses m"
  proof (cases "cache_hits m + cache_misses m = 0")
    case True
    then show ?thesis by (simp add: eq)
  next
    case False
    with nn have "0 < real_of_int (cache_hits m + cache_misses m)"
      and "real_of_int (cache_hits m) \<le> real_of_int (cache_hits m + cache_misses m)"
      and "0 \<le> real_of_int (cache_hits m)"
      by simp_all
    then show ?thesis using False by (simp add: eq)
  qed
  assume "reachable m"
  then have "counters_ok m" by (rule reachable_counters_ok)
  then show "0 \<le> cache_hits m" and "0 \<le> cache_misses m"
    by (simp_all add: counters_ok_def six_def)
qed

theorem hit_ratio_only_hits_and_misses_witness:
  "hit_ratio \<lparr>total_requests = 120, cache_hits = 80, cache_misses = 20, cache_bypass = 7,
       cache_stale = 5, cache_updating = 0, cache_revalidated = 8, error_5xx = 1, error_4xx = 3,
       total_bytes = 4096, latencies = []\<rparr> = Inr (4 / 5) \<and>
   (\<exists>v. hit_ratio \<lparr>total_requests = 120, cache_hits = 80, cache_misses = 20, cache_bypass = 7,
       cache_stale = 5, cache_updating = 0, cache_revalidated = 8, error_5xx = 1, error_4xx = 3,
       total_bytes = 4096, latencies = []\<rparr> = Inr v \<and> 0 \<le> v \<and> v \<le> 1) \<and>
   reachable new_CacheMetrics \<and> 0 \<le> cache_hits new_CacheMetrics"
proof -
  let ?m = "\<lparr>total_requests = 120, cache_hits = 80, cache_misses = 20, cache_bypass = 7,
       cache_stale = 5, cache_updating = 0, cache_revalidated = 8, error_5xx = 1, error_4xx = 3,
       total_bytes = 4096, latencies = []\<rparr>"
  note t = hit_ratio_only_hits_and_misses [of ?m 0 0 0 0]
  from t have "hit_ratio ?m = Inr (4 / 5)" by simp
  moreover have "0 \<le> cache_hits ?m \<and> 0 \<le> cache_misses ?m" by simp
  with t have "\<exists>v. hit_ratio ?m = Inr v \<and> 0 \<le> v \<and> v \<le> 1" by blast
  moreover from hit_ratio_only_hits_and_misses [of new_CacheMetrics 0 0 0 0] reachable.fresh
  have "0 \<le> cache_hits new_CacheMetrics" by blast
  ultimately show ?thesis using reachable.fresh by blast
qed

text \<open>
  Claim C5. In every aggregate reachable from a fresh \<open>CacheMetrics\<close> by processing any
  sequence of lines, \<open>error_4xx + error_5xx \<le> total_requests\<close>; hence the error rate,
  \<open>(error_4xx + error_5xx) / total_requests\<close> and \<open>0.0\<close> when there are no requests, lies
  in \<open>[0, 1]\<close>.
\<close>

theorem error_rate_in_unit_interval:
  assumes "reachable m"
  shows "error_4xx m + error_5xx m \<le> total_requests m \<and>
         (\<exists>r. error_rate m = Inr r \<and>
              r = (if total_requests m = 0 then 0
                   else real_of_int (error_4xx m + error_5xx m) / real_of_int (total_requests m)) \<and>
              0 \<le> r \<and> r \<le> 1)"
proof -
  from assms have "counters_ok m" by (rule reachable_counters_ok)
  then have le: "error_4xx m + error_5xx m \<le> total_requests m"
    and nn: "0 \<le> error_4xx m" "0 \<le> error_5xx m"
    by (simp_all add: counters_ok_def)
  show ?thesis
  proof (cases "total_requests m = 0")
    case True
    then show ?thesis using le by (simp add: error_rate_def)
  next
    case False
    with le nn have "0 < real_of_int (total_requests m)"
      and "real_of_int (error_4xx m + error_5xx m) \<le> real_of_int (total_requests m)"
      and "0 \<le> real_of_int (error_4xx m + error_5xx m)"
      by simp_all
    then show ?thesis using False le
      by (simp add: error_rate_def truediv_def add.commute)
  qed
qed

theorem error_rate_in_unit_interval_witness:
  "reachable \<lparr>total_requests = 1, cache_hits = 0, cache_misses = 0, cache_bypass = 1,
       cache_stale = 0, cache_updating = 0, cache_revalidated = 0, error_5xx = 0, error_4xx = 1,
       total_bytes = 162, latencies = [Fin (1 / 4)]\<rparr> \<and>
   error_rate \<lparr>total_requests = 1, cache_hits = 0, cache_misses = 0, cache_bypass = 1,
       cache_stale = 0, cache_updating = 0, cache_revalidated = 0, error_5xx = 0, error_4xx = 1,
       total_bytes = 162, latencies = [Fin (1 / 4)]\<rparr> = Inr 1"
proof -
  let ?m = "\<lparr>total_requests = 1, cache_hits = 0, cache_misses = 0, cache_bypass = 1,
       cache_stale = 0, cache_updating = 0, cache_revalidated = 0, error_5xx = 0, error_4xx = 1,
       total_bytes = 162, latencies = [Fin (1 / 4)]\<rparr>"
  have "state_left (process_log_line
      ''10.0.0.7 - [27/Oct/2025:10:00:01 +0000] \"GET /missing HTTP/1.1\" 404 162 0.250 \"BYPASS\"''
      new_CacheMetrics) = ?m"
    by (simp add: not_found_line_effect state_left_def)
  with reachable.fresh have r: "reachable ?m" by (rule reachable.step)
  from error_rate_in_unit_interval [OF r] r show ?thesis by simp
qed

text \<open>
  Claim C6. A line that parses increments \<open>total_requests\<close> and at most one of the six
  cache-status counters: none of them decreases and their sum grows by at most one. When
  the trimmed tag is none of the six known ones (empty or unrecognised), none of them
  changes while \<open>total_requests\<close> is still incremented. This is what the call leaves
  behind whether it returns or raises. Hence in every reachable aggregate the six
  counters sum to at most \<open>total_requests\<close>.
\<close>

theorem cache_status_dispatch_exclusive:
  "(parse_line line = Some g \<longrightarrow>
      (\<exists>m'. state_left (process_log_line line m) = m' \<and>
            total_requests m' = total_requests m + 1 \<and>
            list_all2 (\<le>) (six m) (six m') \<and> sum_list (six m') \<le> sum_list (six m) + 1)) \<and>
   (parse_line line = Some g \<and> map_of g ''cache_status'' = Some cs \<and>
    strip cs \<notin> set [''HIT'', ''MISS'', ''BYPASS'', ''STALE'', ''UPDATING'', ''REVALIDATED''] \<longrightarrow>
      (\<exists>m'. state_left (process_log_line line m) = m' \<and>
            total_requests m' = total_requests m + 1 \<and> six m' = six m)) \<and>
   (reachable m \<longrightarrow> sum_list (six m) \<le> total_requests m)"
proof (intro conjI impI)
  assume p: "parse_line line = Some g"
  from process_log_line_fields [OF p, of m] obtain cs m' where
    m': "state_left (process_log_line line m) = m'" and
    f: "total_requests m' = total_requests m + 1" "six m' = six (count_cache_status (strip cs) m)"
    by blast
  have "list_all2 (\<le>) (six m) (six m')" "sum_list (six m') \<le> sum_list (six m) + 1"
    using count_cache_status_six [where t = "strip cs" and m = m] by (simp_all add: f)
  with m' f(1) show "\<exists>m'. state_left (process_log_line line m) = m' \<and>
      total_requests m' = total_requests m + 1 \<and>
      list_all2 (\<le>) (six m) (six m') \<and> sum_list (six m') \<le> sum_list (six m) + 1"
    by blast
next
  assume a: "parse_line line = Some g \<and> map_of g ''cache_status'' = Some cs \<and>
    strip cs \<notin> set [''HIT'', ''MISS'', ''BYPASS'', ''STALE'', ''UPDATING'', ''REVALIDATED'']"
  then have p: "parse_line line = Some g" by simp
  from process_log_line_fields [OF p, of m] a obtain m' where
    m': "state_left (process_log_line line m) = m'" and
    f: "total_requests m' = total_requests m + 1" "six m' = six (count_cache_status (strip cs) m)"
    by auto
  from a have "count_cache_status (strip cs) m = m"
    by (intro count_cache_status_other) simp
  with m' f show "\<exists>m'. state_left (process_log_line line m) = m' \<and>
      total_requests m' = total_requests m + 1 \<and> six m' = six m"
    by simp
next
  assume "reachable m"
  then have "counters_ok m" by (rule reachable_counters_ok)
  then show "sum_list (six m) \<le> total_requests m" by (simp add: counters_ok_def)
qed

theorem cache_status_dispatch_exclusive_witness:
  "parse_line ''10.0.0.9 - [27/Oct/2025:10:00:02 +0000] \"GET /x HTTP/1.1\" 200 10 0.001 \"-\"'' =
     Some [(''ip'', ''10.0.0.9''), (''time'', ''27/Oct/2025:10:00:02 +0000''), (''method'', ''GET''),
           (''path'', ''/x''), (''protocol'', ''HTTP/1.1''), (''status'', ''200''), (''bytes'', ''10''),
           (''latency'', ''0.001''), (''cache_status'', ''-'')] \<and>
   strip ''-'' \<notin> set [''HIT'', ''MISS'', ''BYPASS'', ''STALE'', ''UPDATING'', ''REVALIDATED''] \<and>
   reachable new_CacheMetrics \<and>
   (\<exists>m'. state_left (process_log_line
           ''10.0.0.9 - [27/Oct/2025:10:00:02 +0000] \"GET /x HTTP/1.1\" 200 10 0.001 \"-\"''
           new_CacheMetrics) = m' \<and>
         total_requests m' = 1 \<and> six m' = [0, 0, 0, 0, 0, 0]) \<and>
   sum_list (six new_CacheMetrics) \<le> total_requests new_CacheMetrics"
proof -
  let ?l = "''10.0.0.9 - [27/Oct/2025:10:00:02 +0000] \"GET /x HTTP/1.1\" 200 10 0.001 \"-\"''"
  let ?g = "[(''ip'', ''10.0.0.9''), (''time'', ''27/Oct/2025:10:00:02 +0000''), (''method'', ''GET''),
           (''path'', ''/x''), (''protocol'', ''HTTP/1.1''), (''status'', ''200''), (''bytes'', ''10''),
           (''latency'', ''0.001''), (''cache_status'', ''-'')]"
  have s: "strip ''-'' \<notin> set [''HIT'', ''MISS'', ''BYPASS'', ''STALE'', ''UPDATING'', ''REVALIDATED'']"
    by (simp add: strip_def isspace_def ord_def)
  have c: "map_of ?g ''cache_status'' = Some ''-''" by simp
  from cache_status_dispatch_exclusive [of ?l ?g new_CacheMetrics "''-''"]
    no_verdict_line_effect s c reachable.fresh
  show ?thesis by (simp add: new_CacheMetrics_def six_def)
qed

section \<open>Lines built from their fields\<close>

lemma strip_keeps:
  assumes "s \<noteq> []" and "\<not> isspace (hd s)" and "\<not> isspace (last s)"
  shows "strip s = s"
proof -
  from assms have "dropWhile isspace s = s" by (cases s) simp_all
  moreover from assms have "dropWhile isspace (rev s) = rev s"
    by (cases "rev s") (simp_all add: last_rev [symmetric] hd_rev)
  ultimately show ?thesis by (simp add: strip_def)
qed

lemma run_then_stop:
  assumes "list_all P xs" and "\<not> P y"
  shows "takeWhile P (xs @ y # ys) = xs" and "dropWhile P (xs @ y # ys) = y # ys"
  using assms by (simp_all add: list_all_iff)

lemma not_a_number_unparsed:
  assumes ip: "ip \<noteq> []" "list_all (class_match (In [Digit, Chr CHR ''.''])) ip"
    and tm: "tm \<noteq> []" "list_all (class_match (NotIn [Chr CHR '']''])) tm"
  shows "parse_line (ip @ '' - ['' @ tm @ ''] \"GET / HTTP/1.1\" 200 100 notanumber \"HIT\"'') = None"
proof -
  let ?rest = "''] \"GET / HTTP/1.1\" 200 100 notanumber \"HIT\"''"
  let ?line = "ip @ '' - ['' @ tm @ ?rest"
  from ip have "\<not> isspace (hd ip)" by (cases ip) (auto simp: isspace_def isdecimal_def ord_def)
  then have "\<not> isspace (hd ?line)" using ip by simp
  moreover have "\<not> isspace (last ?line)" by (simp add: isspace_def ord_def)
  ultimately have s: "strip ?line = ?line" using ip by (intro strip_keeps) simp_all
  have 1: "takeWhile (class_match (In [Digit, Chr CHR ''.''])) (ip @ CHR '' '' # r) = ip"
          "dropWhile (class_match (In [Digit, Chr CHR ''.''])) (ip @ CHR '' '' # r) = CHR '' '' # r"
    for r using ip(2) by (simp_all add: run_then_stop isdecimal_def ord_def)
  have 2: "takeWhile (class_match (NotIn [Chr CHR '']''])) (tm @ CHR '']'' # r) = tm"
          "dropWhile (class_match (NotIn [Chr CHR '']''])) (tm @ CHR '']'' # r) = CHR '']'' # r"
    for r using tm(2) by (simp_all add: run_then_stop)
  show ?thesis
    unfolding parse_line_def s LOG_PATTERN_def
    using ip(1) tm(1)
    by (simp add: match_rep_delimited 1 2 isdecimal_def isspace_def isalnum_def ord_def
        del: match_nodes.simps(3))
qed

lemma dotted_latency_parsed:
  assumes ip: "ip \<noteq> []" "list_all (class_match (In [Digit, Chr CHR ''.''])) ip"
    and tm: "tm \<noteq> []" "list_all (class_match (NotIn [Chr CHR '']''])) tm"
  shows "parse_line (ip @ '' - ['' @ tm @ ''] \"GET / HTTP/1.1\" 200 100 1.2.3 \"HIT\"'') =
           Some [(''ip'', ip), (''time'', tm), (''method'', ''GET''), (''path'', ''/''),
                 (''protocol'', ''HTTP/1.1''), (''status'', ''200''), (''bytes'', ''100''),
                 (''latency'', ''1.2.3''), (''cache_status'', ''HIT'')]"
proof -
  let ?rest = "''] \"GET / HTTP/1.1\" 200 100 1.2.3 \"HIT\"''"
  let ?line = "ip @ '' - ['' @ tm @ ?rest"
  from ip have "\<not> isspace (hd ip)" by (cases ip) (auto simp: isspace_def isdecimal_def ord_def)
  then have "\<not> isspace (hd ?line)" using ip by simp
  moreover have "\<not> isspace (last ?line)" by (simp add: isspace_def ord_def)
  ultimately have s: "strip ?line = ?line" using ip by (intro strip_keeps) simp_all
  have 1: "takeWhile (class_match (In [Digit, Chr CHR ''.''])) (ip @ CHR '' '' # r) = ip"
          "dropWhile (class_match (In [Digit, Chr CHR ''.''])) (ip @ CHR '' '' # r) = CHR '' '' # r"
    for r using ip(2) by (simp_all add: run_then_stop isdecimal_def ord_def)
  have 2: "takeWhile (class_match (NotIn [Chr CHR '']''])) (tm @ CHR '']'' # r) = tm"
          "dropWhile (class_match (NotIn [Chr CHR '']''])) (tm @ CHR '']'' # r) = CHR '']'' # r"
    for r using tm(2) by (simp_all add: run_then_stop)
  show ?thesis
    unfolding parse_line_def s LOG_PATTERN_def
    using ip(1) tm(1)
    by (simp add: match_rep_delimited 1 2 isdecimal_def isspace_def isalnum_def ord_def
        del: match_nodes.simps(3))
qed

text \<open>
  Claim C1, as the code has it. The latency field of the grammar is a run of digits and
  dots, so a line \<open><ip> - [<time>] "GET / HTTP/1.1" 200 100 notanumber "HIT"\<close> does not match:
  processing it changes no counter (neither \<open>total_requests\<close> nor \<open>cache_hits\<close>) and the
  latency list does not grow. A latency token made of digits and dots that is not a
  number, such as \<open>1.2.3\<close>, is what still increments \<open>total_requests\<close> and
  \<open>cache_hits\<close> (and adds the bytes) without growing the latency list.
\<close>

theorem latency_token_must_be_digits_and_dots:
  assumes "ip \<noteq> []" and "list_all (\<lambda>c. isdecimal c \<or> c = CHR ''.'') ip"
    and "tm \<noteq> []" and "CHR '']'' \<notin> set tm"
  shows "process_log_line
           (ip @ '' - ['' @ tm @ ''] \"GET / HTTP/1.1\" 200 100 notanumber \"HIT\"'') m = Inr m \<and>
         process_log_line
           (ip @ '' - ['' @ tm @ ''] \"GET / HTTP/1.1\" 200 100 1.2.3 \"HIT\"'') m =
           Inr (m\<lparr>total_requests := total_requests m + 1, cache_hits := cache_hits m + 1,
                  total_bytes := total_bytes m + 100\<rparr>)"
proof -
  have ip: "list_all (class_match (In [Digit, Chr CHR ''.''])) ip"
    using assms(2) by (simp add: list_all_iff)
  have tm: "list_all (class_match (NotIn [Chr CHR '']''])) tm"
    using assms(4) by (auto simp: list_all_iff)
  have "process_log_line
           (ip @ '' - ['' @ tm @ ''] \"GET / HTTP/1.1\" 200 100 notanumber \"HIT\"'') m = Inr m"
    using not_a_number_unparsed [OF assms(1) ip assms(3) tm] by (rule process_log_line_unparsed)
  moreover have "process_log_line
           (ip @ '' - ['' @ tm @ ''] \"GET / HTTP/1.1\" 200 100 1.2.3 \"HIT\"'') m =
           Inr (m\<lparr>total_requests := total_requests m + 1, cache_hits := cache_hits m + 1,
                  total_bytes := total_bytes m + 100\<rparr>)"
    unfolding process_log_line_def dotted_latency_parsed [OF assms(1) ip assms(3) tm]
    by (simp add: dict_getitem_def strip_def isspace_def ord_def isdecimal_def py_int_def
        int_max_str_digits_def py_float_def digits_val_def digit_val_def count_cache_status_def
        count_status_def append_latency_def)
  ultimately show ?thesis by simp
qed

theorem latency_token_must_be_digits_and_dots_witness:
  "process_log_line
     ''192.168.1.100 - [27/Oct/2025:10:00:00 +0000] \"GET / HTTP/1.1\" 200 100 notanumber \"HIT\"''
     new_CacheMetrics = Inr new_CacheMetrics \<and>
   process_log_line
     ''192.168.1.100 - [27/Oct/2025:10:00:00 +0000] \"GET / HTTP/1.1\" 200 100 1.2.3 \"HIT\"''
     new_CacheMetrics =
   Inr \<lparr>total_requests = 1, cache_hits = 1, cache_misses = 0, cache_bypass = 0, cache_stale = 0,
        cache_updating = 0, cache_revalidated = 0, error_5xx = 0, error_4xx = 0,
        total_bytes = 100, latencies = []\<rparr>"
  using latency_token_must_be_digits_and_dots
    [of "''192.168.1.100''" "''27/Oct/2025:10:00:00 +0000''" new_CacheMetrics]
  by (simp add: isdecimal_def ord_def new_CacheMetrics_def)

text \<open>
  The line of the scenario itself: on a fresh aggregate nothing is counted.
\<close>

theorem not_a_number_line_counts_nothing:
  "process_log_line
     ''192.168.1.100 - [27/Oct/2025:10:00:00 +0000] \"GET / HTTP/1.1\" 200 100 notanumber \"HIT\"''
     new_CacheMetrics = Inr new_CacheMetrics \<and>
   total_requests new_CacheMetrics = 0 \<and> cache_hits new_CacheMetrics = 0"
  by (simp add: eval_defs)

section \<open>Trailing text\<close>

lemma strip_append:
  assumes "strip s \<noteq> []"
  shows "\<exists>u. strip (s @ t) = strip s @ u"
proof -
  let ?ls = "dropWhile isspace s"
  have "strip s = []" if "?ls = []"
    using that by (simp add: strip_def del: dropWhile_eq_Nil_conv)
  with assms have ne: "?ls \<noteq> []" by blast
  then have "\<not> isspace (hd ?ls)" by (rule hd_dropWhile)
  moreover from ne have "hd ?ls \<in> set s" by (meson hd_in_set set_dropWhileD)
  ultimately have front: "dropWhile isspace (s @ t) = ?ls @ t" by (intro dropWhile_append1)
  have split: "?ls = strip s @ rev (takeWhile isspace (rev ?ls))"
  proof -
    have "rev (takeWhile isspace (rev ?ls) @ dropWhile isspace (rev ?ls)) = ?ls"
      by (simp only: takeWhile_dropWhile_id rev_rev_ident)
    then have "rev (dropWhile isspace (rev ?ls)) @ rev (takeWhile isspace (rev ?ls)) = ?ls"
      by (simp only: rev_append)
    then show ?thesis by (simp add: strip_def)
  qed
  show ?thesis
  proof (cases "\<forall>x\<in>set (rev t). isspace x")
    case True
    then have "dropWhile isspace (rev t @ rev ?ls) = dropWhile isspace (rev ?ls)"
      by (intro dropWhile_append2) simp
    then have "strip (s @ t) = strip s @ []" by (simp add: strip_def front)
    then show ?thesis by blast
  next
    case False
    then obtain x where "x \<in> set (rev t)" "\<not> isspace x" by blast
    then have "dropWhile isspace (rev t @ rev ?ls) = dropWhile isspace (rev t) @ rev ?ls"
      by (rule dropWhile_append1)
    then have "strip (s @ t) = ?ls @ rev (dropWhile isspace (rev t))"
      by (simp add: strip_def front)
    also have "\<dots> = strip s @ (rev (takeWhile isspace (rev ?ls)) @ rev (dropWhile isspace (rev t)))"
      by (subst split) simp
    finally show ?thesis by blast
  qed
qed

lemma LOG_PATTERN_empty: "match_nodes LOG_PATTERN [] = None"
  by (simp add: LOG_PATTERN_def)

text \<open>
  Claim C10. The pattern is matched as a prefix of the trimmed line, not against the whole
  line: whenever a string \<open>s\<close> parses to a record, \<open>s\<close> followed by any text \<open>t\<close> parses
  to a record with the same field values, rather than being rejected.
\<close>

theorem parse_line_ignores_trailing_text:
  assumes "parse_line s = Some g"
  shows "parse_line (s @ t) = Some g"
proof -
  from assms have m: "match_nodes LOG_PATTERN (strip s) = Some g" by (simp add: parse_line_def)
  then have "strip s \<noteq> []" using LOG_PATTERN_empty by auto
  then obtain u where u: "strip (s @ t) = strip s @ u" using strip_append by blast
  from LOG_PATTERN_delimited m have "match_nodes LOG_PATTERN (strip s @ u) = Some g"
    by (rule match_nodes_append)
  then show ?thesis by (simp add: parse_line_def u)
qed

theorem parse_line_ignores_trailing_text_witness:
  "parse_line ''10.0.0.9 - [27/Oct/2025:10:00:02 +0000] \"GET /x HTTP/1.1\" 200 10 0.001 \"-\"'' =
     Some [(''ip'', ''10.0.0.9''), (''time'', ''27/Oct/2025:10:00:02 +0000''), (''method'', ''GET''),
           (''path'', ''/x''), (''protocol'', ''HTTP/1.1''), (''status'', ''200''), (''bytes'', ''10''),
           (''latency'', ''0.001''), (''cache_status'', ''-'')] \<and>
   parse_line (''10.0.0.9 - [27/Oct/2025:10:00:02 +0000] \"GET /x HTTP/1.1\" 200 10 0.001 \"-\"''
               @ '' rt=0.003 \"curl/8.5\" trailing'') =
     Some [(''ip'', ''10.0.0.9''), (''time'', ''27/Oct/2025:10:00:02 +0000''), (''method'', ''GET''),
           (''path'', ''/x''), (''protocol'', ''HTTP/1.1''), (''status'', ''200''), (''bytes'', ''10''),
           (''latency'', ''0.001''), (''cache_status'', ''-'')]"
  using parse_line_ignores_trailing_text [OF no_verdict_line_effect, of "'' rt=0.003 \"curl/8.5\" trailing''"]
    no_verdict_line_effect
  by simp

section \<open>Failed latency conversion\<close>



lemma long_status_parsed:
  assumes st: "st \<noteq> []" "list_all (class_match (In [Digit])) st"
    and la: "la \<noteq> []" "list_all (class_match (In [Digit, Chr CHR ''.''])) la"
  shows "parse_line (''192.168.1.100 - [27/Oct/2025:10:00:00 +0000] \"GET / HTTP/1.1\" ''
                     @ st @ '' 100 '' @ la @ '' \"HIT\"'') =
           Some [(''ip'', ''192.168.1.100''), (''time'', ''27/Oct/2025:10:00:00 +0000''),
                 (''method'', ''GET''), (''path'', ''/''), (''protocol'', ''HTTP/1.1''),
                 (''status'', st), (''bytes'', ''100''), (''latency'', la),
                 (''cache_status'', ''HIT'')]"
proof -
  let ?line = "''192.168.1.100 - [27/Oct/2025:10:00:00 +0000] \"GET / HTTP/1.1\" ''
                 @ st @ '' 100 '' @ la @ '' \"HIT\"''"
  have "\<not> isspace (hd ?line)" by (simp add: isspace_def ord_def)
  moreover have "\<not> isspace (last ?line)" by (simp add: isspace_def ord_def)
  ultimately have s: "strip ?line = ?line" by (intro strip_keeps) simp_all
  have 1: "takeWhile (class_match (In [Digit])) (st @ CHR '' '' # r) = st"
          "dropWhile (class_match (In [Digit])) (st @ CHR '' '' # r) = CHR '' '' # r"
    for r using st(2) by (simp_all add: run_then_stop isdecimal_def ord_def)
  have 2: "takeWhile (class_match (In [Digit, Chr CHR ''.''])) (la @ CHR '' '' # r) = la"
          "dropWhile (class_match (In [Digit, Chr CHR ''.''])) (la @ CHR '' '' # r) = CHR '' '' # r"
    for r using la(2) by (simp_all add: run_then_stop isdecimal_def ord_def)
  show ?thesis
    unfolding parse_line_def s LOG_PATTERN_def
    using st(1) la(1)
    by (simp add: match_rep_delimited 1 2 isdecimal_def isspace_def isalnum_def ord_def
        del: match_nodes.simps(3))
qed

lemma over_long_digits: "py_int (replicate 4301 CHR ''2'') = Inl ValueError"
  by (simp add: py_int_def int_max_str_digits_def isdecimal_def ord_def list_all_iff)

lemma over_long_status_effect:
  assumes la: "la \<noteq> []" "list_all (class_match (In [Digit, Chr CHR ''.''])) la"
  shows "process_log_line
           (''192.168.1.100 - [27/Oct/2025:10:00:00 +0000] \"GET / HTTP/1.1\" ''
              @ replicate 4301 CHR ''2'' @ '' 100 '' @ la @ '' \"HIT\"'') new_CacheMetrics =
         Inl (ValueError,
              \<lparr>total_requests = 1, cache_hits = 1, cache_misses = 0, cache_bypass = 0,
               cache_stale = 0, cache_updating = 0, cache_revalidated = 0, error_5xx = 0,
               error_4xx = 0, total_bytes = 0, latencies = []\<rparr>)"
proof -
  have st: "replicate 4301 CHR ''2'' \<noteq> []"
    "list_all (class_match (In [Digit])) (replicate 4301 CHR ''2'')"
    by (simp_all add: list_all_iff isdecimal_def ord_def)
  show ?thesis
    unfolding process_log_line_def long_status_parsed [OF st la]
    by (simp add: dict_getitem_def over_long_digits strip_def isspace_def ord_def
        count_cache_status_def new_CacheMetrics_def)
qed




section \<open>Percentiles\<close>

lemma list_getitem_nat: "i < length xs \<Longrightarrow> list_getitem xs (int i) = Inr (xs ! i)"
  by (simp add: list_getitem_def)

lemma list_getitem_last: "xs \<noteq> [] \<Longrightarrow> list_getitem xs (- 1) = Inr (last xs)"
proof -
  assume ne: "xs \<noteq> []"
  then have "nat (int (length xs) + - 1) = length xs - 1" by (cases xs) simp_all
  moreover from ne have "- int (length xs) \<le> - 1" by (cases xs) simp_all
  ultimately show ?thesis using ne by (simp add: list_getitem_def last_conv_nth)
qed

lemma floor_hundredths: "\<lfloor>real n * (real k / 100)\<rfloor> = int (n * k div 100)"
proof -
  have "real n * (real k / 100) = real (n * k) / real 100" by simp
  then show ?thesis by (simp only: floor_divide_of_nat_eq)
qed

lemma floor_95: "\<lfloor>real n * 0.95\<rfloor> = int (n * 95 div 100)"
  using floor_hundredths [of n 95] by simp

lemma floor_99: "\<lfloor>real n * 0.99\<rfloor> = int (n * 99 div 100)"
  using floor_hundredths [of n 99] by simp

lemma rank_below_count:
  fixes n :: nat
  shows "0 < n \<Longrightarrow> n * 95 div 100 < n" and "0 < n \<Longrightarrow> n * 99 div 100 < n"
    and "n div 2 \<le> n * 95 div 100" and "n * 95 div 100 \<le> n * 99 div 100"
  by arith+

lemma sort_not_Nil: "xs \<noteq> [] \<Longrightarrow> sort xs \<noteq> []"
  by (metis length_sort length_0_conv)

lemma p95_value:
  "latencies m \<noteq> [] \<Longrightarrow>
   p95_latency m = Inr (sort (latencies m) ! (length (latencies m) * 95 div 100))"
  unfolding p95_latency_def Let_def floor_95
  using rank_below_count(1) [of "length (latencies m)"]
  by (simp add: list_getitem_nat)

lemma p99_value:
  "latencies m \<noteq> [] \<Longrightarrow>
   p99_latency m = Inr (sort (latencies m) ! (length (latencies m) * 99 div 100))"
  unfolding p99_latency_def Let_def floor_99
  using rank_below_count(2) [of "length (latencies m)"]
  by (simp add: list_getitem_nat)

lemma median_value:
  assumes "xs \<noteq> []"
  shows "median xs =
           Inr (if odd (length xs) then sort xs ! (length xs div 2)
                else fdiv2 (fadd (sort xs ! (length xs div 2 - 1)) (sort xs ! (length xs div 2))))"
proof (cases "odd (length xs)")
  case True
  then have "length xs mod 2 = 1" by (simp add: odd_iff_mod_2_eq_one)
  moreover have "length xs div 2 < length (sort xs)" using assms by simp
  ultimately show ?thesis using True assms
    by (simp add: median_def Let_def list_getitem_nat sort_not_Nil)
next
  case False
  then have m: "length xs mod 2 \<noteq> 1" by presburger
  from assms have "length xs \<noteq> 0" by simp
  with False have two: "2 \<le> length xs" by presburger
  then have i: "int (length xs div 2) - 1 = int (length xs div 2 - 1)" by simp
  have "length xs div 2 - 1 < length (sort xs)" "length xs div 2 < length (sort xs)"
    using two by simp_all
  then show ?thesis using False assms m
    by (simp add: median_def Let_def i list_getitem_nat sort_not_Nil del: of_nat_diff)
qed

lemma p50_value: "p50_latency m = Inr (statistical_median (latencies m))"
  by (simp add: p50_latency_def statistical_median_def median_value Let_def)

text \<open>
  Claim C2. For every observation list, P95 and P99 are the elements of the ascending
  list at index \<open>floor (count * 0.95)\<close> and \<open>floor (count * 0.99)\<close>, clamped to the last
  element when the index reaches the count; on an empty observation list P50, P95 and
  P99 are all \<open>0.0\<close>.
\<close>

theorem rank_index_percentiles:
  "p95_latency m = Inr (rank_index_percentile 0.95 (latencies m)) \<and>
   p99_latency m = Inr (rank_index_percentile 0.99 (latencies m)) \<and>
   p50_latency (m\<lparr>latencies := []\<rparr>) = Inr (Fin 0) \<and>
   p95_latency (m\<lparr>latencies := []\<rparr>) = Inr (Fin 0) \<and>
   p99_latency (m\<lparr>latencies := []\<rparr>) = Inr (Fin 0)"
proof (intro conjI)
  show "p95_latency m = Inr (rank_index_percentile 0.95 (latencies m))"
  proof (cases "latencies m = []")
    case True
    then show ?thesis by (simp add: p95_latency_def rank_index_percentile_def)
  next
    case False
    then show ?thesis
      unfolding rank_index_percentile_def Let_def floor_95
      using rank_below_count(1) [of "length (latencies m)"]
      by (simp add: p95_value)
  qed
  show "p99_latency m = Inr (rank_index_percentile 0.99 (latencies m))"
  proof (cases "latencies m = []")
    case True
    then show ?thesis by (simp add: p99_latency_def rank_index_percentile_def)
  next
    case False
    then show ?thesis
      unfolding rank_index_percentile_def Let_def floor_99
      using rank_below_count(2) [of "length (latencies m)"]
      by (simp add: p99_value)
  qed
qed (simp_all add: p50_latency_def p95_latency_def p99_latency_def)

theorem rank_index_percentiles_witness:
  "p95_latency (new_CacheMetrics\<lparr>latencies := [Fin 3, Fin 1, Fin 2, Fin 5]\<rparr>) = Inr (Fin 5) \<and>
   p99_latency (new_CacheMetrics\<lparr>latencies := [Fin 3, Fin 1, Fin 2, Fin 5]\<rparr>) = Inr (Fin 5) \<and>
   p50_latency (new_CacheMetrics\<lparr>latencies := []\<rparr>) = Inr (Fin 0)"
  using rank_index_percentiles [of "new_CacheMetrics\<lparr>latencies := [Fin 3, Fin 1, Fin 2, Fin 5]\<rparr>"]
    rank_index_percentiles [of new_CacheMetrics]
  by (simp add: rank_index_percentile_def new_CacheMetrics_def)

subsection \<open>The observations an aggregate can hold\<close>

lemma digits_val_nonneg_from: "list_all isdecimal s \<Longrightarrow> 0 \<le> a \<Longrightarrow>
    0 \<le> foldl (\<lambda>a c. 10 * a + digit_val c) a s"
  by (induction s arbitrary: a) (simp_all add: digit_val_def isdecimal_def)

lemma digits_val_nonneg: "list_all isdecimal s \<Longrightarrow> 0 \<le> digits_val s"
  unfolding digits_val_def by (rule digits_val_nonneg_from) simp_all

lemma py_float_is_double:
  assumes "py_float s = Inr v"
  shows "is_double v"
proof -
  have ip: "list_all isdecimal (takeWhile isdecimal s)"
    by (auto simp: list_all_iff dest: set_takeWhileD)
  show ?thesis
  proof (cases "dropWhile isdecimal s")
    case Nil
    with assms have "v = round_double (real_of_int (digits_val (takeWhile isdecimal s)))"
      by (simp add: py_float_def Let_def del: dropWhile_eq_Nil_conv split: if_splits)
    then show ?thesis using digits_val_nonneg [OF ip] by (simp add: round_double_is_double)
  next
    case (Cons c fp)
    with assms have fp: "list_all isdecimal fp"
      and v: "v = round_double (real_of_int (digits_val (takeWhile isdecimal s @ fp))
                                / 10 ^ length fp)"
      by (simp_all add: py_float_def Let_def split: if_splits)
    from ip fp have "list_all isdecimal (takeWhile isdecimal s @ fp)" by simp
    then have "0 \<le> digits_val (takeWhile isdecimal s @ fp)" by (rule digits_val_nonneg)
    then have "0 \<le> real_of_int (digits_val (takeWhile isdecimal s @ fp)) / 10 ^ length fp"
      by simp
    then show ?thesis unfolding v by (rule round_double_is_double)
  qed
qed

lemma latencies_step:
  "latencies (state_left (process_log_line line m)) = latencies m \<or>
   (\<exists>la v. py_float la = Inr v \<and>
      latencies (state_left (process_log_line line m)) = latencies m @ [v])"
proof (cases "parse_line line")
  case None
  then show ?thesis by (simp add: process_log_line_unparsed state_left_def)
next
  case (Some g)
  from process_log_line_parsed [OF Some, of m] obtain st bs la cs where
    eq: "process_log_line line m =
             (case py_int st of
                Inl e \<Rightarrow>
                  Inl (e, count_cache_status (strip cs)
                            (m\<lparr>total_requests := total_requests m + 1\<rparr>))
              | Inr status \<Rightarrow>
                  (case py_int bs of
                     Inl e \<Rightarrow>
                       Inl (e, count_status status (count_cache_status (strip cs)
                                 (m\<lparr>total_requests := total_requests m + 1\<rparr>)))
                   | Inr b \<Rightarrow>
                       Inr (case py_float la of
                              Inl e \<Rightarrow>
                                (count_status status (count_cache_status (strip cs)
                                   (m\<lparr>total_requests := total_requests m + 1\<rparr>)))
                                \<lparr>total_bytes := total_bytes m + b\<rparr>
                            | Inr v \<Rightarrow>
                                (count_status status (count_cache_status (strip cs)
                                   (m\<lparr>total_requests := total_requests m + 1\<rparr>)))
                                \<lparr>total_bytes := total_bytes m + b,
                                  latencies := latencies m @ [v]\<rparr>)))"
    by blast
  show ?thesis
    unfolding eq state_left_def by (cases "py_float la") (auto split: sum.splits)
qed

lemma reachable_latencies: "reachable m \<Longrightarrow> list_all is_double (latencies m)"
proof (induction rule: reachable.induct)
  case fresh
  show ?case by (simp add: new_CacheMetrics_def)
next
  case (step m line m')
  from latencies_step [of line m] step.hyps(2)
  have "latencies m' = latencies m \<or> (\<exists>la v. py_float la = Inr v \<and> latencies m' = latencies m @ [v])"
    by simp
  then show ?case using step.IH by (auto dest: py_float_is_double)
qed

lemma digits_val_zeros:
  "digits_val (s @ replicate n CHR ''0'') = digits_val s * 10 ^ n"
proof -
  have "foldl (\<lambda>a c. 10 * a + digit_val c) a (replicate n CHR ''0'') = a * 10 ^ n" for a
    by (induction n arbitrary: a) (simp_all add: digit_val_def ord_def)
  then show ?thesis by (simp add: digits_val_def)
qed

lemma huge_latency_token:
  "py_float (CHR ''1'' # replicate 308 CHR ''0'') = Inr (Fin float_1e308)"
proof -
  let ?t = "CHR ''1'' # replicate 308 CHR ''0''"
  have all: "\<forall>c\<in>set ?t. isdecimal c" by (simp add: isdecimal_def ord_def)
  then have tw: "takeWhile isdecimal ?t = ?t" "dropWhile isdecimal ?t = []"
    by (simp_all only: takeWhile_eq_all_conv dropWhile_eq_Nil_conv)
  have "digits_val ?t = digits_val ([CHR ''1''] @ replicate 308 CHR ''0'')" by simp
  also have "\<dots> = 10 ^ 308"
    by (simp only: digits_val_zeros) (simp add: digits_val_def digit_val_def ord_def)
  finally have d: "real_of_int (digits_val ?t) = 10 ^ 308" by simp
  have "py_float ?t = Inr (round_double (real_of_int (digits_val ?t)))"
    unfolding py_float_def Let_def tw by simp
  then show ?thesis by (simp only: d round_1e308)
qed

text \<open>
  Claim C8, as the code has it. For every observation list \<open>P95 \<le> P99\<close>, and P50 is the
  statistical median, the float sum of the two middle values halved when the count is
  even. \<open>P50 \<le> P95\<close> holds when the count is odd, when the list is empty, when the upper
  middle value is infinite, and when the observations are non-negative floats, as every
  list the analyzer builds is, and the float sum of the two middle values is finite.
  When that sum of two finite values overflows P50 is infinite.
\<close>

theorem percentiles_monotone:
  "\<exists>a b c. p50_latency m = Inr a \<and> p95_latency m = Inr b \<and> p99_latency m = Inr c \<and>
           a = statistical_median (latencies m) \<and> b \<le> c \<and>
           (odd (length (latencies m)) \<or> latencies m = [] \<or>
            sort (latencies m) ! (length (latencies m) div 2) = Inf \<or>
            list_all is_double (latencies m) \<and>
            fadd (sort (latencies m) ! (length (latencies m) div 2 - 1))
                 (sort (latencies m) ! (length (latencies m) div 2)) \<noteq> Inf
            \<longrightarrow> a \<le> b) \<and>
           (even (length (latencies m)) \<and> latencies m \<noteq> [] \<and>
            fadd (sort (latencies m) ! (length (latencies m) div 2 - 1))
                 (sort (latencies m) ! (length (latencies m) div 2)) = Inf
            \<longrightarrow> a = Inf) \<and>
           (reachable m \<longrightarrow> list_all is_double (latencies m))"
proof (cases "latencies m = []")
  case True
  then show ?thesis
    using reachable_latencies [of m]
    by (simp add: p50_latency_def p95_latency_def p99_latency_def statistical_median_def)
next
  case False
  let ?s = "sort (latencies m)"
  let ?n = "length (latencies m)"
  let ?lo = "?s ! (?n div 2 - 1)"
  let ?hi = "?s ! (?n div 2)"
  have n: "0 < ?n" using False by simp
  have srt: "sorted ?s" by simp
  have hi95: "?hi \<le> ?s ! (?n * 95 div 100)"
    using srt rank_below_count(3) [of ?n] rank_below_count(1) [OF n]
    by (intro sorted_nth_mono) simp_all
  have b_le_c: "?s ! (?n * 95 div 100) \<le> ?s ! (?n * 99 div 100)"
    using srt rank_below_count(4) [of ?n] rank_below_count(2) [OF n]
    by (intro sorted_nth_mono) simp_all
  have lohi: "?lo \<le> ?hi" using srt n by (intro sorted_nth_mono) simp_all
  have med: "statistical_median (latencies m) = (if odd ?n then ?hi else fdiv2 (fadd ?lo ?hi))"
    using False by (simp add: statistical_median_def Let_def)
  have a_le_b: "statistical_median (latencies m) \<le> ?s ! (?n * 95 div 100)"
    if c: "odd ?n \<or> ?hi = Inf \<or> list_all is_double (latencies m) \<and> fadd ?lo ?hi \<noteq> Inf"
  proof (cases "odd ?n")
    case True
    then show ?thesis using hi95 by (simp add: med)
  next
    case even: False
    show ?thesis
    proof (cases "?hi = Inf")
      case True
      with hi95 have "?s ! (?n * 95 div 100) = Inf" by (cases "?s ! (?n * 95 div 100)") simp_all
      then show ?thesis by simp
    next
      case fin: False
      with c even have dbl: "list_all is_double (latencies m)" and sum: "fadd ?lo ?hi \<noteq> Inf"
        by simp_all
      have "?n div 2 - 1 < ?n" "?n div 2 < ?n" using n by arith+
      then have "?n div 2 - 1 < length ?s" "?n div 2 < length ?s" by simp_all
      then have "?lo \<in> set ?s" "?hi \<in> set ?s" by (simp_all only: nth_mem)
      then have mem: "?lo \<in> set (latencies m)" "?hi \<in> set (latencies m)" by simp_all
      with dbl have "is_double ?lo" "is_double ?hi" by (simp_all add: list_all_iff)
      then have "fdiv2 (fadd ?lo ?hi) \<le> ?hi" using lohi sum by (rule half_sum_le_upper)
      then show ?thesis using even hi95 by (simp add: med)
    qed
  qed
  have inf: "statistical_median (latencies m) = Inf" if "even ?n" "fadd ?lo ?hi = Inf"
    using that by (simp add: med)
  show ?thesis
    apply (rule exI [of _ "statistical_median (latencies m)"])
    apply (rule exI [of _ "?s ! (?n * 95 div 100)"])
    apply (rule exI [of _ "?s ! (?n * 99 div 100)"])
    using False b_le_c a_le_b inf reachable_latencies [of m]
    apply (simp add: p50_value p95_value p99_value)
    done
qed

theorem percentiles_monotone_witness:
  "list_all is_double [Fin 3, Fin 1, Fin 2, Fin 5] \<and>
   fadd (Fin 2) (Fin 3) = Fin 5 \<and>
   p50_latency (new_CacheMetrics\<lparr>latencies := [Fin 3, Fin 1, Fin 2, Fin 5]\<rparr>) = Inr (Fin (5 / 2)) \<and>
   p95_latency (new_CacheMetrics\<lparr>latencies := [Fin 3, Fin 1, Fin 2, Fin 5]\<rparr>) = Inr (Fin 5) \<and>
   p99_latency (new_CacheMetrics\<lparr>latencies := [Fin 3, Fin 1, Fin 2, Fin 5]\<rparr>) = Inr (Fin 5) \<and>
   Fin (5 / 2) \<le> Fin 5"
proof -
  let ?m = "new_CacheMetrics\<lparr>latencies := [Fin 3, Fin 1, Fin 2, Fin 5]\<rparr>"
  note r = round_small
  have d: "list_all is_double [Fin 3, Fin 1, Fin 2, Fin 5]" by (simp add: r)
  have s: "fadd (Fin 2) (Fin 3) = Fin 5" by (simp add: r)
  have so: "sort [Fin 3, Fin 1, Fin 2, Fin 5] = [Fin 1, Fin 2, Fin 3, Fin 5]" by simp
  from percentiles_monotone [of ?m] d s
  show ?thesis
    by (simp add: p50_value p95_value p99_value statistical_median_def new_CacheMetrics_def so r)
qed

text \<open>
  The claim as stated fails on two observations of \<open>1e308\<close>, which two lines with the
  latency token \<open>1\<close> followed by 308 zeros produce: the float sum of the two middle
  values overflows, P50 is infinite and P95 is \<open>1e308\<close>.
\<close>

theorem median_overflow_breaks_order:
  "py_float (CHR ''1'' # replicate 308 CHR ''0'') = Inr (Fin float_1e308) \<and>
   p50_latency (new_CacheMetrics\<lparr>latencies :=
      [Fin float_1e308, Fin float_1e308]\<rparr>) = Inr Inf \<and>
   p95_latency (new_CacheMetrics\<lparr>latencies :=
      [Fin float_1e308, Fin float_1e308]\<rparr>) =
     Inr (Fin float_1e308) \<and>
   \<not> Inf \<le> Fin float_1e308"
proof -
  let ?x = "Fin float_1e308"
  let ?m = "new_CacheMetrics\<lparr>latencies := [?x, ?x]\<rparr>"
  have so: "sort [?x, ?x] = [?x, ?x]" by simp
  have l: "latencies ?m = [?x, ?x]" by simp
  have "statistical_median [?x, ?x] = fdiv2 (fadd ?x ?x)"
    by (simp add: statistical_median_def so del: fadd.simps)
  then have "p50_latency ?m = Inr Inf"
    by (simp only: p50_value l overflow_1e308 fdiv2.simps)
  moreover have "p95_latency ?m = Inr ?x"
    by (simp add: p95_value so)
  ultimately show ?thesis using huge_latency_token by simp
qed


section \<open>Running over a block of text\<close>

lemma process_lines_eq:
  "process_lines self ls st =
     (case fold_lines ls (cells st (metrics self)) of
        Inl (e, m') \<Rightarrow> Inl (e, st\<lparr>cells := (cells st)(metrics self := m')\<rparr>)
      | Inr m' \<Rightarrow> Inr (st\<lparr>cells := (cells st)(metrics self := m')\<rparr>))"
proof (induction ls arbitrary: st)
  case Nil
  show ?case by simp
next
  case (Cons line rest)
  show ?case
  proof (cases "strip line \<noteq> []")
    case True
    show ?thesis
    proof (cases "process_log_line line (cells st (metrics self))")
      case (Inl raised)
      then show ?thesis using True
        by (cases raised) (simp add: analyzer_process_log_line_def)
    next
      case (Inr m')
      let ?st = "st\<lparr>cells := (cells st)(metrics self := m')\<rparr>"
      have upd: "?st\<lparr>cells := (cells ?st)(metrics self := x)\<rparr> =
                 st\<lparr>cells := (cells st)(metrics self := x)\<rparr>" for x
        by (intro store.equality) (simp_all add: fun_eq_iff)
      have "process_lines self (line # rest) st = process_lines self rest ?st"
        using True Inr by (simp add: analyzer_process_log_line_def)
      also have "\<dots> =
        (case fold_lines rest (cells ?st (metrics self)) of
           Inl (e, m'') \<Rightarrow> Inl (e, ?st\<lparr>cells := (cells ?st)(metrics self := m'')\<rparr>)
         | Inr m'' \<Rightarrow> Inr (?st\<lparr>cells := (cells ?st)(metrics self := m'')\<rparr>))"
        by (rule Cons.IH)
      also have "\<dots> =
        (case fold_lines rest m' of
           Inl (e, m'') \<Rightarrow> Inl (e, st\<lparr>cells := (cells st)(metrics self := m'')\<rparr>)
         | Inr m'' \<Rightarrow> Inr (st\<lparr>cells := (cells st)(metrics self := m'')\<rparr>))"
        unfolding upd by simp
      finally have "process_lines self (line # rest) st =
        (case fold_lines rest m' of
           Inl (e, m'') \<Rightarrow> Inl (e, st\<lparr>cells := (cells st)(metrics self := m'')\<rparr>)
         | Inr m'' \<Rightarrow> Inr (st\<lparr>cells := (cells st)(metrics self := m'')\<rparr>))" .
      moreover have "fold_lines (line # rest) (cells st (metrics self)) = fold_lines rest m'"
        using True Inr by simp
      ultimately show ?thesis by (simp only:)
    qed
  next
    case False
    then show ?thesis by (simp add: Cons.IH)
  qed
qed

lemma process_log_content_eq:
  "process_log_content content self st =
     (case fold_lines (splitlines content) new_CacheMetrics of
        Inl (e, m') \<Rightarrow>
          Inl (e, self\<lparr>metrics := next_ref st\<rparr>,
               st\<lparr>cells := (cells st)(next_ref st := m'), next_ref := Suc (next_ref st)\<rparr>)
      | Inr m' \<Rightarrow>
          Inr (next_ref st, self\<lparr>metrics := next_ref st\<rparr>,
               st\<lparr>cells := (cells st)(next_ref st := m'), next_ref := Suc (next_ref st)\<rparr>))"
  by (simp add: process_log_content_def alloc_def process_lines_eq split: sum.splits prod.splits)

lemma fold_lines_unparsed:
  "list_all (\<lambda>l. parse_line l = None) ls \<Longrightarrow> fold_lines ls m = Inr m"
  by (induction ls arbitrary: m) (simp_all add: process_log_line_unparsed)

lemma unmatched_text_zero_snapshot:
  assumes "list_all (\<lambda>l. parse_line l = None) (splitlines content)"
  shows "process_log_content content self st =
           Inr (next_ref st, self\<lparr>metrics := next_ref st\<rparr>,
                st\<lparr>cells := (cells st)(next_ref st := new_CacheMetrics),
                   next_ref := Suc (next_ref st)\<rparr>)"
  using assms by (simp add: process_log_content_eq fold_lines_unparsed)

lemma derived_statistics_return:
  "\<exists>a b c d e. hit_ratio m = Inr a \<and> error_rate m = Inr b \<and> p50_latency m = Inr c \<and>
     p95_latency m = Inr d \<and> p99_latency m = Inr e"
proof -
  have "\<exists>a. hit_ratio m = Inr a" by (simp add: hit_ratio_def truediv_def Let_def)
  moreover have "\<exists>b. error_rate m = Inr b" by (simp add: error_rate_def truediv_def)
  moreover have "\<exists>c. p50_latency m = Inr c" by (simp add: p50_value)
  moreover have "\<exists>d. p95_latency m = Inr d"
    by (cases "latencies m = []") (simp_all add: p95_value, simp add: p95_latency_def)
  moreover have "\<exists>e. p99_latency m = Inr e"
    by (cases "latencies m = []") (simp_all add: p99_value, simp add: p99_latency_def)
  ultimately show ?thesis by blast
qed

lemma splitlines_from_single:
  "s \<noteq> [] \<Longrightarrow> \<forall>c\<in>set s. \<not> is_linebreak c \<Longrightarrow> splitlines_from cur s = [rev cur @ s]"
proof (induction cur s rule: splitlines_from.induct)
  case (1 cur)
  then show ?case by simp
next
  case (2 cur c)
  then show ?case by simp
next
  case (3 cur c d ds)
  from "3.prems"(2) have nb: "\<not> is_linebreak c" and rest: "\<forall>x\<in>set (d # ds). \<not> is_linebreak x"
    by simp_all
  from nb have cr: "\<not> (c = CHR 0x0D \<and> d = CHR 0x0A)" by (auto simp: is_linebreak_def ord_def)
  have "d # ds \<noteq> []" by simp
  with cr nb have "splitlines_from (c # cur) (d # ds) = [rev (c # cur) @ d # ds]"
    using rest by (rule "3.IH"(3))
  with cr nb show ?case by simp
qed

lemma splitlines_single:
  "s \<noteq> [] \<Longrightarrow> \<forall>c\<in>set s. \<not> is_linebreak c \<Longrightarrow> splitlines s = [s]"
  by (simp add: splitlines_def splitlines_from_single)

lemma long_bytes_parsed:
  assumes bs: "bs \<noteq> []" "list_all (class_match (In [Digit])) bs"
  shows "parse_line (''10.0.0.7 - [27/Oct/2025:10:00:01 +0000] \"GET / HTTP/1.1\" 503 ''
                     @ bs @ '' 0.250 \"MISS\"'') =
           Some [(''ip'', ''10.0.0.7''), (''time'', ''27/Oct/2025:10:00:01 +0000''),
                 (''method'', ''GET''), (''path'', ''/''), (''protocol'', ''HTTP/1.1''),
                 (''status'', ''503''), (''bytes'', bs), (''latency'', ''0.250''),
                 (''cache_status'', ''MISS'')]"
proof -
  let ?line = "''10.0.0.7 - [27/Oct/2025:10:00:01 +0000] \"GET / HTTP/1.1\" 503 ''
                 @ bs @ '' 0.250 \"MISS\"''"
  have "\<not> isspace (hd ?line)" by (simp add: isspace_def ord_def)
  moreover have "\<not> isspace (last ?line)" by (simp add: isspace_def ord_def)
  ultimately have s: "strip ?line = ?line" by (intro strip_keeps) simp_all
  have 1: "takeWhile (class_match (In [Digit])) (bs @ CHR '' '' # r) = bs"
          "dropWhile (class_match (In [Digit])) (bs @ CHR '' '' # r) = CHR '' '' # r"
    for r using bs(2) by (simp_all add: run_then_stop isdecimal_def ord_def)
  show ?thesis
    unfolding parse_line_def s LOG_PATTERN_def
    using bs(1)
    by (simp add: match_rep_delimited 1 isdecimal_def isspace_def isalnum_def ord_def
        del: match_nodes.simps(3))
qed

lemma over_long_bytes_effect:
  "process_log_line
     (''10.0.0.7 - [27/Oct/2025:10:00:01 +0000] \"GET / HTTP/1.1\" 503 ''
        @ replicate 4301 CHR ''2'' @ '' 0.250 \"MISS\"'') new_CacheMetrics =
   Inl (ValueError,
        \<lparr>total_requests = 1, cache_hits = 0, cache_misses = 1, cache_bypass = 0,
         cache_stale = 0, cache_updating = 0, cache_revalidated = 0, error_5xx = 1,
         error_4xx = 0, total_bytes = 0, latencies = []\<rparr>)"
proof -
  have bs: "replicate 4301 CHR ''2'' \<noteq> []"
    "list_all (class_match (In [Digit])) (replicate 4301 CHR ''2'')"
    by (simp_all add: list_all_iff isdecimal_def ord_def)
  have i: "py_int ''503'' = Inr 503"
    by (simp add: py_int_def int_max_str_digits_def isdecimal_def ord_def digits_val_def
        digit_val_def)
  show ?thesis
    unfolding process_log_line_def long_bytes_parsed [OF bs]
    by (simp add: dict_getitem_def over_long_digits i strip_def isspace_def ord_def
        count_cache_status_def count_status_def new_CacheMetrics_def)
qed

lemma over_long_status_content:
  "process_log_content
     (''192.168.1.100 - [27/Oct/2025:10:00:00 +0000] \"GET / HTTP/1.1\" ''
        @ replicate 4301 CHR ''2'' @ '' 100 '' @ ''0.250'' @ '' \"HIT\"'')
     self st =
   Inl (ValueError, self\<lparr>metrics := next_ref st\<rparr>,
        st\<lparr>cells := (cells st)(next_ref st :=
              \<lparr>total_requests = 1, cache_hits = 1, cache_misses = 0, cache_bypass = 0,
               cache_stale = 0, cache_updating = 0, cache_revalidated = 0, error_5xx = 0,
               error_4xx = 0, total_bytes = 0, latencies = []\<rparr>),
           next_ref := Suc (next_ref st)\<rparr>)"
proof -
  let ?line = "''192.168.1.100 - [27/Oct/2025:10:00:00 +0000] \"GET / HTTP/1.1\" ''
        @ replicate 4301 CHR ''2'' @ '' 100 '' @ ''0.250'' @ '' \"HIT\"''"
  have la: "''0.250'' \<noteq> []" "list_all (class_match (In [Digit, Chr CHR ''.''])) ''0.250''"
    by (simp_all add: isdecimal_def ord_def)
  have "\<forall>c\<in>set ?line. \<not> is_linebreak c" by (simp add: is_linebreak_def ord_def)
  then have sp: "splitlines ?line = [?line]" by (intro splitlines_single) simp_all
  have "\<not> isspace (hd ?line)" by (simp add: isspace_def ord_def)
  moreover have "\<not> isspace (last ?line)" by (simp add: isspace_def ord_def)
  ultimately have s: "strip ?line = ?line" by (intro strip_keeps) simp_all
  have "fold_lines [?line] new_CacheMetrics =
        Inl (ValueError,
             \<lparr>total_requests = 1, cache_hits = 1, cache_misses = 0, cache_bypass = 0,
              cache_stale = 0, cache_updating = 0, cache_revalidated = 0, error_5xx = 0,
              error_4xx = 0, total_bytes = 0, latencies = []\<rparr>)"
    unfolding fold_lines.simps s over_long_status_effect [OF la] by simp
  then show ?thesis
    unfolding process_log_content_eq sp by simp
qed

text \<open>
  Claim C9 says that no operation of the core ever raises. The code raises on a line that
  matches the pattern with a status or bytes field of more than 4300 digits:
  \<^verbatim>\<open>int(parsed['status'])\<close> and \<^verbatim>\<open>int(parsed['bytes'])\<close> stand outside the only
  \<^verbatim>\<open>try\<close> of \<^verbatim>\<open>process_log_line\<close>, which guards \<^verbatim>\<open>float(parsed['latency'])\<close> alone.
  With 4301 digits of status the call raises \<^verbatim>\<open>ValueError\<close> after counting the request
  and the hit; with 4301 digits of bytes it raises after counting the request, the miss
  and the 5xx error as well; \<open>process_log_content\<close> on the first line as its whole text
  raises too and leaves the analyzer with the partly updated aggregate.
\<close>

theorem over_long_integer_field_raises:
  "py_int (replicate 4301 CHR ''2'') = Inl ValueError \<and>
   process_log_line
     (''192.168.1.100 - [27/Oct/2025:10:00:00 +0000] \"GET / HTTP/1.1\" ''
        @ replicate 4301 CHR ''2'' @ '' 100 '' @ ''0.250'' @ '' \"HIT\"'') new_CacheMetrics =
     Inl (ValueError,
          \<lparr>total_requests = 1, cache_hits = 1, cache_misses = 0, cache_bypass = 0,
           cache_stale = 0, cache_updating = 0, cache_revalidated = 0, error_5xx = 0,
           error_4xx = 0, total_bytes = 0, latencies = []\<rparr>) \<and>
   process_log_line
     (''10.0.0.7 - [27/Oct/2025:10:00:01 +0000] \"GET / HTTP/1.1\" 503 ''
        @ replicate 4301 CHR ''2'' @ '' 0.250 \"MISS\"'') new_CacheMetrics =
     Inl (ValueError,
          \<lparr>total_requests = 1, cache_hits = 0, cache_misses = 1, cache_bypass = 0,
           cache_stale = 0, cache_updating = 0, cache_revalidated = 0, error_5xx = 1,
           error_4xx = 0, total_bytes = 0, latencies = []\<rparr>) \<and>
   process_log_content
     (''192.168.1.100 - [27/Oct/2025:10:00:00 +0000] \"GET / HTTP/1.1\" ''
        @ replicate 4301 CHR ''2'' @ '' 100 '' @ ''0.250'' @ '' \"HIT\"'')
     \<lparr>metrics = 0\<rparr> \<lparr>cells = (\<lambda>_. new_CacheMetrics), next_ref = 1\<rparr> =
     Inl (ValueError, \<lparr>metrics = 1\<rparr>,
          \<lparr>cells = (\<lambda>_. new_CacheMetrics)(1 :=
              \<lparr>total_requests = 1, cache_hits = 1, cache_misses = 0, cache_bypass = 0,
               cache_stale = 0, cache_updating = 0, cache_revalidated = 0, error_5xx = 0,
               error_4xx = 0, total_bytes = 0, latencies = []\<rparr>),
           next_ref = 2\<rparr>)"
proof -
  have la: "''0.250'' \<noteq> []" "list_all (class_match (In [Digit, Chr CHR ''.''])) ''0.250''"
    by (simp_all add: isdecimal_def ord_def)
  have "process_log_content
     (''192.168.1.100 - [27/Oct/2025:10:00:00 +0000] \"GET / HTTP/1.1\" ''
        @ replicate 4301 CHR ''2'' @ '' 100 '' @ ''0.250'' @ '' \"HIT\"'')
     \<lparr>metrics = 0\<rparr> \<lparr>cells = (\<lambda>_. new_CacheMetrics), next_ref = 1\<rparr> =
     Inl (ValueError, \<lparr>metrics = 1\<rparr>,
          \<lparr>cells = (\<lambda>_. new_CacheMetrics)(1 :=
              \<lparr>total_requests = 1, cache_hits = 1, cache_misses = 0, cache_bypass = 0,
               cache_stale = 0, cache_updating = 0, cache_revalidated = 0, error_5xx = 0,
               error_4xx = 0, total_bytes = 0, latencies = []\<rparr>),
           next_ref = 2\<rparr>)"
    unfolding over_long_status_content by simp
  with over_long_digits over_long_status_effect [OF la] over_long_bytes_effect
  show ?thesis by (intro conjI)
qed



end
